theory Spec2Isabelle
  imports Main
begin

section \<open>Python values\<close>

text \<open>
  A Python \<open>str\<close> is a sequence of Unicode code points and a \<open>bytes\<close> object a sequence
  of octets; both are lists of naturals here. Exceptions are values: every constructor of
  \<open>exn\<close> stands for a subclass of Python's \<open>Exception\<close>, which is what the
  \<open>except Exception\<close> clause of \<open>emit\<close> catches.
\<close>

type_synonym str = "nat list"
type_synonym bytes = "nat list"

datatype exn = AttributeError | UnicodeEncodeError | ValueError | OSError | Exception string

datatype outcome = Returned | Raised exn

text \<open>
  \<open>str.encode()\<close> with its defaults (UTF-8, strict): one to four octets per code point;
  a surrogate code point raises \<open>UnicodeEncodeError\<close>. Code points from \<open>0x110000\<close> on
  do not occur in a Python \<open>str\<close>; the model raises for them as well.
\<close>

definition utf8 :: "nat \<Rightarrow> exn + bytes" where
  "utf8 c =
     (if c < 0x80 then Inr [c]
      else if c < 0x800 then Inr [0xC0 + c div 0x40, 0x80 + c mod 0x40]
      else if 0xD800 \<le> c \<and> c < 0xE000 then Inl UnicodeEncodeError
      else if c < 0x10000 then
        Inr [0xE0 + c div 0x1000, 0x80 + (c div 0x40) mod 0x40, 0x80 + c mod 0x40]
      else if c < 0x110000 then
        Inr [0xF0 + c div 0x40000, 0x80 + (c div 0x1000) mod 0x40,
             0x80 + (c div 0x40) mod 0x40, 0x80 + c mod 0x40]
      else Inl UnicodeEncodeError)"

fun encode :: "str \<Rightarrow> exn + bytes" where
  "encode [] = Inr []"
| "encode (c # cs) =
     (case utf8 c of
        Inl e \<Rightarrow> Inl e
      | Inr b \<Rightarrow> (case encode cs of Inl e \<Rightarrow> Inl e | Inr bs \<Rightarrow> Inr (b @ bs)))"

text \<open>
  \<open>LogRecord\<close>, with the fields its constructor is given in \<open>tests/test_logger.py\<close>.
  The handler never looks into a record: it hands it to the formatter and to the error
  hook.
\<close>

record log_record =
  levelno :: int
  name :: str
  pathname :: str
  lineno :: int
  msg :: str
  exc_info :: "(str \<times> str \<times> str) option"
  args :: "str list option"

section \<open>The stream handler and its collaborators\<close>

text \<open>
  The handler talks to three collaborators that are not part of
  \<open>aiologger/handlers/streams.py\<close>: the event loop (\<open>connect_write_pipe\<close>), the
  \<open>StreamWriter\<close> it builds (\<open>write\<close>, \<open>drain\<close>, \<open>close\<close>) and the error hook
  \<open>handle_error\<close> inherited from \<open>Handler\<close>. Every call on one of them is logged, in
  order, so that a property can count them. A writer is named by a number: the number of
  \<open>connect_write_pipe\<close> calls made when it was built.
\<close>

datatype call =
    ConnectWritePipe
  | WriterWrite nat bytes
  | WriterDrain nat
  | WriterClose nat
  | HandleError log_record exn

text \<open>
  \<open>self.stream\<close> is one resource of the operating system, and the writers built on it
  share it. The transport of the first writer built on the stream is the one that carries
  bytes to it; a writer built by a later \<open>connect_write_pipe\<close> on the same stream
  delivers nothing. \<open>writer.close()\<close> closes the transport and with it the stream
  itself, after which nothing written reaches the sink, through whatever writer.
\<close>

datatype stream_state = Fresh | Piped nat | Shut

text \<open>
  \<open>AsyncStreamHandler\<close>. \<open>level\<close>, \<open>formatter\<close>, \<open>filters\<close> (what \<open>add_filter\<close> has
  registered), \<open>writer\<close>, \<open>locked\<close> (the state of \<open>_initialization_lock\<close>) and
  \<open>stream\<close> are the object's attributes. The other three fields are the handler's
  surroundings: \<open>calls\<close> is the log of calls on the collaborators, \<open>sink\<close> the bytes
  that have reached the stream, and \<open>faults\<close> scripts what the collaborators will do:
  each call on the event loop or on a writer takes the next entry when it completes,
  \<open>None\<close> for success and \<open>Some e\<close> for raising \<open>e\<close>; an exhausted script means success.
\<close>

record handler =
  level :: int
  formatter :: "log_record \<Rightarrow> exn + str"
  filters :: "(log_record \<Rightarrow> bool) list"
  writer :: "nat option"
  locked :: bool
  stream :: stream_state
  calls :: "call list"
  sink :: bytes
  faults :: "exn option list"

text \<open>The class attribute \<open>terminator\<close>, a newline.\<close>

definition terminator :: str where
  "terminator = [10]"

text \<open>
  A call on a collaborator enters the log; when it completes, it takes its outcome from
  the script. \<open>connects\<close> counts the \<open>connect_write_pipe\<close> calls of a log and \<open>releases\<close>
  the \<open>writer.close()\<close> calls.
\<close>

definition external :: "call \<Rightarrow> handler \<Rightarrow> handler" where
  "external c h = h\<lparr>calls := calls h @ [c]\<rparr>"

definition completes :: "handler \<Rightarrow> exn option \<times> handler" where
  "completes h =
     ((case faults h of [] \<Rightarrow> None | f # fs \<Rightarrow> f), h\<lparr>faults := tl (faults h)\<rparr>)"

definition connects :: "call list \<Rightarrow> nat" where
  "connects cs = length (filter (\<lambda>c. c = ConnectWritePipe) cs)"

definition releases :: "call list \<Rightarrow> nat" where
  "releases cs = length (filter (\<lambda>c. case c of WriterClose w \<Rightarrow> True | _ \<Rightarrow> False) cs)"

text \<open>The property \<open>initialized\<close>: \<open>self.writer is not None\<close>.\<close>

definition initialized :: "handler \<Rightarrow> bool" where
  "initialized h = (writer h \<noteq> None)"

text \<open>
  \<open>_init_writer\<close>, in the two pieces between which the coroutine is suspended:
  \<open>connect_call\<close> enters \<open>async with self._initialization_lock\<close> (the lock is free) and
  calls \<open>connect_write_pipe\<close>; \<open>connect_resume\<close> runs when that call completes: it
  either raises, or builds the \<open>StreamWriter\<close> and stores it in \<open>self.writer\<close>; leaving
  the \<open>async with\<close> block releases the lock either way. \<open>piped\<close> is what the new
  transport does to the stream: a fresh stream is now carried by the new writer.
\<close>

definition piped :: "nat \<Rightarrow> stream_state \<Rightarrow> stream_state" where
  "piped n s = (case s of Fresh \<Rightarrow> Piped n | Piped m \<Rightarrow> Piped m | Shut \<Rightarrow> Shut)"

definition connect_call :: "handler \<Rightarrow> handler" where
  "connect_call h = external ConnectWritePipe (h\<lparr>locked := True\<rparr>)"

definition connect_resume :: "handler \<Rightarrow> outcome \<times> handler" where
  "connect_resume h =
     (case completes h of
        (Some e, h1) \<Rightarrow> (Raised e, h1\<lparr>locked := False\<rparr>)
      | (None, h1) \<Rightarrow>
          (Returned, h1\<lparr>writer := Some (connects (calls h1)), locked := False,
                        stream := piped (connects (calls h1)) (stream h1)\<rparr>))"

text \<open>
  \<open>_init_writer\<close> awaited with no other coroutine in flight. A lock that is held is
  never released then, so the call does not return: \<open>None\<close>.
\<close>

definition init_writer :: "handler \<Rightarrow> (outcome \<times> handler) option" where
  "init_writer h = (if locked h then None else Some (connect_resume (connect_call h)))"

text \<open>\<open>writer.drain()\<close>: the call, and its completion after the suspension.\<close>

definition drain_call :: "nat \<Rightarrow> handler \<Rightarrow> handler" where
  "drain_call w h = external (WriterDrain w) h"

definition drain_resume :: "handler \<Rightarrow> outcome \<times> handler" where
  "drain_resume h =
     (case completes h of (Some e, h1) \<Rightarrow> (Raised e, h1) | (None, h1) \<Rightarrow> (Returned, h1))"

text \<open>
  \<open>flush\<close>: \<open>await self.writer.drain()\<close>. There is no test of \<open>self.writer\<close>: on
  \<open>None\<close> the attribute lookup raises \<open>AttributeError\<close>.
\<close>

definition flush :: "handler \<Rightarrow> outcome \<times> handler" where
  "flush h =
     (case writer h of
        None \<Rightarrow> (Raised AttributeError, h)
      | Some w \<Rightarrow> drain_resume (drain_call w h))"

text \<open>
  \<open>writer.write(data)\<close>: synchronous. When the call does not raise, the stream receives
  the bytes if this writer is the one that carries it, and nothing otherwise.
\<close>

definition writer_write :: "nat \<Rightarrow> bytes \<Rightarrow> handler \<Rightarrow> outcome \<times> handler" where
  "writer_write w b h =
     (case completes (external (WriterWrite w b) h) of
        (Some e, h1) \<Rightarrow> (Raised e, h1)
      | (None, h1) \<Rightarrow>
          (Returned, if stream h1 = Piped w then h1\<lparr>sink := sink h1 @ b\<rparr> else h1))"

text \<open>\<open>writer.close()\<close>: synchronous. When it does not raise, the stream is closed.\<close>

definition writer_close :: "nat \<Rightarrow> handler \<Rightarrow> outcome \<times> handler" where
  "writer_close w h =
     (case completes (external (WriterClose w) h) of
        (Some e, h1) \<Rightarrow> (Raised e, h1)
      | (None, h1) \<Rightarrow> (Returned, h1\<lparr>stream := Shut\<rparr>))"

text \<open>
  \<open>close\<close>, awaited with no other coroutine in flight: return at once when not
  initialized; otherwise flush, close the writer and clear \<open>self.writer\<close>. An exception
  of \<open>flush\<close> or of \<open>writer.close()\<close> leaves the method before the statements after it.
  \<open>close_finish\<close> is the part after \<open>await self.flush()\<close>.
\<close>

definition close_finish :: "handler \<Rightarrow> outcome \<times> handler" where
  "close_finish h =
     (case writer h of
        None \<Rightarrow> (Raised AttributeError, h)
      | Some w \<Rightarrow>
          (case writer_close w h of
             (Raised e, h1) \<Rightarrow> (Raised e, h1)
           | (Returned, h1) \<Rightarrow> (Returned, h1\<lparr>writer := None\<rparr>)))"

definition close :: "handler \<Rightarrow> outcome \<times> handler" where
  "close h =
     (if \<not> initialized h then (Returned, h)
      else
        (case flush h of
           (Raised e, h1) \<Rightarrow> (Raised e, h1)
         | (Returned, h1) \<Rightarrow> close_finish h1))"

text \<open>
  Modelled from the spec: \<open>Handler.handle_error\<close> (\<open>aiologger/handlers/base.py\<close> is
  not among the sources). The hook receives the record and the failure, emits a
  best-effort diagnostic and never raises. Awaiting it is taken as one step of the
  caller.
\<close>

definition handle_error :: "log_record \<Rightarrow> exn \<Rightarrow> handler \<Rightarrow> handler" where
  "handle_error r e h = external (HandleError r e) h"

text \<open>
  The \<open>try\<close> block of \<open>emit\<close> up to its suspension point: format, append the
  terminator, encode, \<open>self.writer.write\<close>, and the call of \<open>self.writer.drain()\<close>.
  Nothing in it yields control, so the bytes of one record are handed over in one piece.
\<close>

definition try_body :: "log_record \<Rightarrow> handler \<Rightarrow> outcome \<times> handler" where
  "try_body r h =
     (case formatter h r of
        Inl e \<Rightarrow> (Raised e, h)
      | Inr m \<Rightarrow>
          (case encode (m @ terminator) of
             Inl e \<Rightarrow> (Raised e, h)
           | Inr b \<Rightarrow>
               (case writer h of
                  None \<Rightarrow> (Raised AttributeError, h)
                | Some w \<Rightarrow>
                    (case writer_write w b h of
                       (Raised e, h1) \<Rightarrow> (Raised e, h1)
                     | (Returned, h1) \<Rightarrow> (Returned, drain_call w h1)))))"

text \<open>The whole \<open>try\<close> statement: every exception goes to \<open>handle_error\<close>.\<close>

definition try_except :: "log_record \<Rightarrow> handler \<Rightarrow> handler" where
  "try_except r h =
     (case try_body r h of
        (Raised e, h1) \<Rightarrow> handle_error r e h1
      | (Returned, h1) \<Rightarrow>
          (case drain_resume h1 of
             (Raised e, h2) \<Rightarrow> handle_error r e h2
           | (Returned, h2) \<Rightarrow> h2))"

text \<open>
  \<open>emit\<close>, awaited with no other coroutine in flight. \<open>_init_writer\<close> is awaited
  before the \<open>try\<close> statement: what it raises leaves \<open>emit\<close>.
\<close>

definition emit :: "log_record \<Rightarrow> handler \<Rightarrow> (outcome \<times> handler) option" where
  "emit r h =
     (case (if \<not> initialized h then init_writer h else Some (Returned, h)) of
        None \<Rightarrow> None
      | Some (Raised e, h1) \<Rightarrow> Some (Raised e, h1)
      | Some (Returned, h1) \<Rightarrow> Some (Returned, try_except r h1))"

text \<open>\<open>close\<close> awaited \<open>n\<close> times in a row, with the outcome of each call.\<close>

fun close_times :: "nat \<Rightarrow> handler \<Rightarrow> outcome list \<times> handler" where
  "close_times 0 h = ([], h)"
| "close_times (Suc n) h =
     (case close h of (out, h1) \<Rightarrow> (case close_times n h1 of (outs, h2) \<Rightarrow> (out # outs, h2)))"

text \<open>\<open>succeed n h\<close>: the next \<open>n\<close> calls on the collaborators do not raise.\<close>

definition succeed :: "nat \<Rightarrow> handler \<Rightarrow> bool" where
  "succeed n h = (\<forall>f \<in> set (take n (faults h)). f = None)"

text \<open>ASCII text as a \<open>str\<close>.\<close>

definition ascii :: "string \<Rightarrow> str" where
  "ascii s = map of_char s"

text \<open>The record built in \<open>test_it_raises_an_error_if_no_handlers_are_found_for_record\<close>.\<close>

definition xablau :: log_record where
  "xablau =
     \<lparr>levelno = 10, name = ascii ''aiologger'',
      pathname = ascii ''/aiologger/tests/test_logger.py'', lineno = 17,
      msg = ascii ''Xablau!'', exc_info = None, args = None\<rparr>"

text \<open>A formatter that renders the message of the record.\<close>

definition message_only :: "log_record \<Rightarrow> exn + str" where
  "message_only r = Inr (msg r)"

text \<open>
  A handler as \<open>__init__\<close> leaves it: no writer, the lock free, the stream untouched,
  nothing called yet.
\<close>

definition new_handler ::
  "int \<Rightarrow> (log_record \<Rightarrow> exn + str) \<Rightarrow> exn option list \<Rightarrow> handler" where
  "new_handler lvl fmt fs =
     \<lparr>level = lvl, formatter = fmt, filters = [], writer = None, locked = False,
      stream = Fresh, calls = [], sink = [], faults = fs\<rparr>"

text \<open>
  A handler after its first \<open>connect_write_pipe\<close> has succeeded: initialized, with
  writer 1 carrying the stream.
\<close>

definition piped_handler ::
  "int \<Rightarrow> (log_record \<Rightarrow> exn + str) \<Rightarrow> exn option list \<Rightarrow> handler" where
  "piped_handler lvl fmt fs =
     (new_handler lvl fmt fs)\<lparr>writer := Some 1, stream := Piped 1, calls := [ConnectWritePipe]\<rparr>"

text \<open>
  The handler at the moment the \<open>try\<close> statement of \<open>emit\<close> starts: as it is when it
  is initialized, and as a successful \<open>_init_writer\<close> leaves it otherwise.
\<close>

definition ready :: "handler \<Rightarrow> handler" where
  "ready h = (if initialized h then h else snd (connect_resume (connect_call h)))"

section \<open>Interleaved emit calls\<close>

text \<open>
  Coroutines on one event loop run one at a time and give up control only where they
  wait: in \<open>emit\<close>, at the lock of \<open>_init_writer\<close> when it is held, at
  \<open>connect_write_pipe\<close> and at \<open>drain\<close>. An \<open>emit\<close> call in flight is at one of these
  places: not started, waiting for the lock, waiting for \<open>connect_write_pipe\<close>, waiting
  for \<open>drain\<close>, or finished with an outcome.
\<close>

datatype pc = Start | WaitLock | Connecting | Draining | Finished outcome

text \<open>
  Entering \<open>async with self._initialization_lock\<close>: a held lock suspends the caller; a
  free lock is taken and \<open>connect_write_pipe\<close> is called at once. The body of
  \<open>_init_writer\<close> does not look at \<open>self.writer\<close>.
\<close>

definition acquire :: "handler \<Rightarrow> pc \<times> handler" where
  "acquire h = (if locked h then (WaitLock, h) else (Connecting, connect_call h))"

text \<open>The \<open>try\<close> statement up to its suspension at \<open>drain\<close>, or to its end on a failure.\<close>

definition try_start :: "log_record \<Rightarrow> handler \<Rightarrow> pc \<times> handler" where
  "try_start r h =
     (case try_body r h of
        (Raised e, h1) \<Rightarrow> (Finished Returned, handle_error r e h1)
      | (Returned, h1) \<Rightarrow> (Draining, h1))"

text \<open>One turn of an \<open>emit\<close> call: from where it stands to where it waits next.\<close>

fun emit_step :: "log_record \<Rightarrow> pc \<Rightarrow> handler \<Rightarrow> pc \<times> handler" where
  "emit_step r Start h = (if \<not> initialized h then acquire h else try_start r h)"
| "emit_step r WaitLock h = acquire h"
| "emit_step r Connecting h =
     (case connect_resume h of
        (Raised e, h1) \<Rightarrow> (Finished (Raised e), h1)
      | (Returned, h1) \<Rightarrow> try_start r h1)"
| "emit_step r Draining h =
     (case drain_resume h of
        (Raised e, h1) \<Rightarrow> (Finished Returned, handle_error r e h1)
      | (Returned, h1) \<Rightarrow> (Finished Returned, h1))"
| "emit_step r (Finished out) h = (Finished out, h)"

text \<open>
  Several \<open>emit\<close> calls on one handler, as \<open>asyncio.gather\<close> starts them. A schedule is
  the list of the calls' indices in the order the event loop gives them a turn; a turn
  given to a call that waits for a held lock, or that has finished, changes nothing.
\<close>

type_synonym tasks = "(log_record \<times> pc) list"

definition turn :: "nat \<Rightarrow> tasks \<times> handler \<Rightarrow> tasks \<times> handler" where
  "turn i c =
     (case c of (ts, h) \<Rightarrow>
        if i < length ts then
          (case ts ! i of (r, p) \<Rightarrow>
             (case emit_step r p h of (p', h') \<Rightarrow> (ts[i := (r, p')], h')))
        else (ts, h))"

fun run :: "nat list \<Rightarrow> tasks \<times> handler \<Rightarrow> tasks \<times> handler" where
  "run [] c = c"
| "run (i # sched) c = run sched (turn i c)"

definition gather :: "log_record list \<Rightarrow> handler \<Rightarrow> tasks \<times> handler" where
  "gather rs h = (map (\<lambda>r. (r, Start)) rs, h)"

text \<open>Two records, with the messages \<open>first\<close> and \<open>second\<close>.\<close>

definition first :: log_record where
  "first = xablau\<lparr>levelno := 20, msg := ascii ''first''\<rparr>"

definition second :: log_record where
  "second = xablau\<lparr>levelno := 20, msg := ascii ''second''\<rparr>"

text \<open>The byte strings handed to \<open>writer.write\<close>, in the order of the calls.\<close>

definition written :: "call list \<Rightarrow> bytes list" where
  "written cs = concat (map (\<lambda>c. case c of WriterWrite w b \<Rightarrow> [b] | _ \<Rightarrow> []) cs)"


section \<open>The logger\<close>

text \<open>
  \<open>aiologger/logger.py\<close>, \<open>aiologger/handlers/base.py\<close> and \<open>aiologger/filters.py\<close> are
  not among the sources; \<open>tests/test_logger.py\<close> and the specification describe them.
  The definitions of this section follow those descriptions and call the handler
  operations defined above.
\<close>

text \<open>
  Modelled from the spec: the \<open>Logger\<close> object (\<open>logger.py\<close> is missing): a name, a
  threshold, the enabled/disabled flag, the logger's own filters and the ordered
  collection of handlers. Handlers are referenced by identity, so the collection is a
  list of addresses into a heap of handler objects, and one handler may be registered
  twice.
\<close>

record logger =
  logger_name :: str
  logger_level :: int
  disabled :: bool
  logger_filters :: "(log_record \<Rightarrow> bool) list"
  handlers :: "nat list"

text \<open>
  Modelled from the spec: the calls a \<open>Logger\<close> makes on its handlers (\<open>logger.py\<close> is
  missing), which the tests observe on mock handlers: \<open>handle(record)\<close>, \<open>flush()\<close> and
  \<open>close()\<close>.
\<close>

datatype request = Handle nat log_record | Flush nat | Close nat

text \<open>
  Modelled from the spec: what the operations of a \<open>Logger\<close> act on (\<open>logger.py\<close> is
  missing): the heap of handler objects, the one-shot shutdown guard the specification
  asks for (the handlers whose teardown has begun), and the journal of the calls made on
  handlers.
\<close>

record world =
  heap :: "nat \<Rightarrow> handler"
  guard :: "nat list"
  journal :: "request list"

text \<open>
  Modelled from the spec: the filter capability \<open>passes(record)\<close> (\<open>filters.py\<close> is
  missing): a record passes when every registered predicate accepts it.
\<close>

definition passes :: "(log_record \<Rightarrow> bool) list \<Rightarrow> log_record \<Rightarrow> bool" where
  "passes fs r = list_all (\<lambda>f. f r) fs"

text \<open>
  Modelled from the spec: \<open>Handler.handle\<close> (\<open>handlers/base.py\<close> is missing): the
  handler's filter is evaluated before \<open>emit\<close> is invoked, and \<open>emit\<close> does not check it
  again.
\<close>

definition handle :: "log_record \<Rightarrow> handler \<Rightarrow> (outcome \<times> handler) option" where
  "handle r h = (if passes (filters h) r then emit r h else Some (Returned, h))"

text \<open>
  Modelled from the spec: the bookkeeping of one \<open>handle\<close> call of dispatch
  (\<open>logger.py\<close> is missing): the handler object is updated in place and the call is
  entered in the journal.
\<close>

definition handled :: "nat \<Rightarrow> log_record \<Rightarrow> handler \<Rightarrow> world \<Rightarrow> world" where
  "handled i r h w = w\<lparr>heap := (heap w)(i := h), journal := journal w @ [Handle i r]\<rparr>"

text \<open>
  Modelled from the spec: the error that signals an unroutable record (\<open>logger.py\<close> is
  missing); the test expects an \<open>Exception\<close>.
\<close>

definition unroutable :: exn where
  "unroutable = Exception ''No handlers could be found for logger''"

text \<open>
  Modelled from the spec: the loop of \<open>Logger.call_handlers\<close> (\<open>logger.py\<close> is missing):
  the registered handlers in registration order; each one whose threshold admits the
  level of the record is handed the record and counted. Nothing in dispatch catches what a
  handler raises.
\<close>

fun call_loop :: "nat list \<Rightarrow> log_record \<Rightarrow> nat \<Rightarrow> world \<Rightarrow> (outcome \<times> nat \<times> world) option" where
  "call_loop [] r found w = Some (Returned, found, w)"
| "call_loop (i # rest) r found w =
     (if level (heap w i) \<le> levelno r then
        (case handle r (heap w i) of
           None \<Rightarrow> None
         | Some (Raised e, h) \<Rightarrow> Some (Raised e, Suc found, handled i r h w)
         | Some (Returned, h) \<Rightarrow> call_loop rest r (Suc found) (handled i r h w))
      else call_loop rest r found w)"

text \<open>
  Modelled from the spec: \<open>Logger.call_handlers\<close> (\<open>logger.py\<close> is missing): when no
  handler's threshold admits the record, the record is unroutable and that is raised.
\<close>

definition call_handlers :: "logger \<Rightarrow> log_record \<Rightarrow> world \<Rightarrow> (outcome \<times> world) option" where
  "call_handlers lg r w =
     (case call_loop (handlers lg) r 0 w of
        None \<Rightarrow> None
      | Some (Raised e, found, w1) \<Rightarrow> Some (Raised e, w1)
      | Some (Returned, found, w1) \<Rightarrow>
          if found = 0 then Some (Raised unroutable, w1) else Some (Returned, w1))"









text \<open>
  A handler at rest whose next \<open>emit\<close> cannot fail to get a writer: the lock is free,
  and the writer is there or the next call on the event loop succeeds.
\<close>

definition healthy :: "handler \<Rightarrow> bool" where
  "healthy h = (\<not> locked h \<and> (initialized h \<or> succeed 1 h))"

text \<open>The registered handlers whose threshold admits the level of a record.\<close>

definition admitted :: "logger \<Rightarrow> log_record \<Rightarrow> world \<Rightarrow> nat list" where
  "admitted lg r w = filter (\<lambda>i. level (heap w i) \<le> levelno r) (handlers lg)"

text \<open>
  The handlers of \<open>test_callhandlers_calls_handlers_for_loglevel\<close>, with the levels 10
  and 30, as initialized stream handlers, and a logger over a given list of handlers.
\<close>

definition mocks :: world where
  "mocks = \<lparr>heap = (\<lambda>i. if i = 0 then piped_handler 10 message_only []
                   else piped_handler 30 message_only []),
            guard = [], journal = []\<rparr>"

definition test_logger :: "nat list \<Rightarrow> logger" where
  "test_logger hs = \<lparr>logger_name = ascii ''aiologger'', logger_level = 0, disabled = False,
     logger_filters = [], handlers = hs\<rparr>"

text \<open>
  Two stream handlers of level 10: the first fresh from \<open>__init__\<close>, on a stream for
  which \<open>connect_write_pipe\<close> raises \<open>OSError\<close>; the second initialized and working.
\<close>

definition unconnected :: world where
  "unconnected = \<lparr>heap = (\<lambda>i. if i = 0 then new_handler 10 message_only [Some OSError]
                         else piped_handler 10 message_only []),
                  guard = [], journal = []\<rparr>"

section \<open>Shutdown\<close>

text \<open>
  \<open>flush\<close> up to its suspension point: the lookup of \<open>self.writer.drain\<close> and the call.
  Together with \<open>drain_resume\<close> it is \<open>flush\<close>.
\<close>

definition flush_call :: "handler \<Rightarrow> outcome \<times> handler" where
  "flush_call h =
     (case writer h of
        None \<Rightarrow> (Raised AttributeError, h)
      | Some w \<Rightarrow> (Returned, drain_call w h))"

text \<open>
  Modelled from the spec: where a \<open>Logger.shutdown\<close> call in flight stands
  (\<open>logger.py\<close> is missing): about to visit the handlers still on its list, suspended in
  \<open>handler.flush()\<close> of a handler, suspended in \<open>handler.close()\<close> of a handler (at the
  flush inside \<open>close\<close>), or finished. \<open>shutdown\<close> catches every failure of a handler, so
  a call cannot finish by raising.
\<close>

datatype spc = Visiting "nat list" | Flushing nat "nat list" | Closing nat "nat list" | Done

text \<open>
  Modelled from the spec: \<open>shutdown\<close> updating a handler object in place (\<open>logger.py\<close> is
  missing).
\<close>

definition put :: "nat \<Rightarrow> handler \<Rightarrow> world \<Rightarrow> world" where
  "put i h w = w\<lparr>heap := (heap w)(i := h)\<rparr>"

text \<open>
  Modelled from the spec: a call made on a handler by \<open>shutdown\<close> entering the journal
  (\<open>logger.py\<close> is missing).
\<close>

definition noted :: "request \<Rightarrow> world \<Rightarrow> world" where
  "noted q w = w\<lparr>journal := journal w @ [q]\<rparr>"

text \<open>
  Modelled from the spec: setting the one-shot guard of a handler (\<open>logger.py\<close> is
  missing); the specification asks for such a guard per handler, so that a second caller
  does not re-enter the teardown of a handler a first caller has begun.
\<close>

definition mark :: "nat \<Rightarrow> world \<Rightarrow> world" where
  "mark i w = w\<lparr>guard := i # guard w\<rparr>"

text \<open>
  Modelled from the spec: the loop of \<open>Logger.shutdown\<close> up to its next suspension
  (\<open>logger.py\<close> is missing). A handler that is guarded or not initialized is skipped for
  both flush and close. Otherwise its guard is set and \<open>handler.flush()\<close> is called, which
  suspends the caller at \<open>drain\<close>; a failure of the call is caught and the loop goes on.
\<close>

fun visit :: "nat list \<Rightarrow> world \<Rightarrow> spc \<times> world" where
  "visit [] w = (Done, w)"
| "visit (i # rest) w =
     (if i \<in> set (guard w) \<or> \<not> initialized (heap w i) then visit rest w
      else
        (case flush_call (heap w i) of
           (Raised e, h1) \<Rightarrow> visit rest (put i h1 (noted (Flush i) (mark i w)))
         | (Returned, h1) \<Rightarrow> (Flushing i rest, put i h1 (noted (Flush i) (mark i w)))))"

text \<open>
  Modelled from the spec: one turn of a \<open>Logger.shutdown\<close> call (\<open>logger.py\<close> is
  missing), with the handler operations of \<open>streams.py\<close>. When \<open>flush\<close> completes
  normally, \<open>handler.close()\<close> is called: it returns at once on a handler without writer
  and otherwise suspends at the \<open>drain\<close> of its own flush; when that completes normally,
  \<open>close\<close> finishes with \<open>close_finish\<close>. A failure of \<open>flush\<close> or of \<open>close\<close> is caught:
  the handler is left as it is (after a failed flush, \<open>close\<close> is not called, as
  \<open>test_shutdown_ignores_erros\<close> expects) and the loop goes on with the next handler.
\<close>

fun shutdown_step :: "spc \<Rightarrow> world \<Rightarrow> spc \<times> world" where
  "shutdown_step (Visiting rest) w = visit rest w"
| "shutdown_step (Flushing i rest) w =
     (case drain_resume (heap w i) of
        (Raised e, h1) \<Rightarrow> visit rest (put i h1 w)
      | (Returned, h1) \<Rightarrow>
          (if \<not> initialized h1 then visit rest (noted (Close i) (put i h1 w))
           else
             (case flush_call h1 of
                (Raised e, h2) \<Rightarrow> visit rest (noted (Close i) (put i h2 w))
              | (Returned, h2) \<Rightarrow> (Closing i rest, noted (Close i) (put i h2 w)))))"
| "shutdown_step (Closing i rest) w =
     (case drain_resume (heap w i) of
        (Raised e, h1) \<Rightarrow> visit rest (put i h1 w)
      | (Returned, h1) \<Rightarrow> visit rest (put i (snd (close_finish h1)) w))"
| "shutdown_step Done w = (Done, w)"

text \<open>
  Modelled from the spec: several \<open>shutdown\<close> calls on one logger (\<open>logger.py\<close> is
  missing), scheduled like the \<open>emit\<close> calls above: a turn for the call with the given
  index.
\<close>

definition shutdown_turn :: "nat \<Rightarrow> spc list \<times> world \<Rightarrow> spc list \<times> world" where
  "shutdown_turn t c =
     (case c of (ps, w) \<Rightarrow>
        if t < length ps then
          (case shutdown_step (ps ! t) w of (p, w') \<Rightarrow> (ps[t := p], w'))
        else (ps, w))"

text \<open>
  Modelled from the spec: the \<open>shutdown\<close> calls run under a schedule (\<open>logger.py\<close> is
  missing). Calls made one after the other are the schedules in which a call takes no
  turn before the one ahead of it has finished.
\<close>

fun shutdown_run :: "nat list \<Rightarrow> spc list \<times> world \<Rightarrow> spc list \<times> world" where
  "shutdown_run [] c = c"
| "shutdown_run (t # sched) c = shutdown_run sched (shutdown_turn t c)"

text \<open>
  Modelled from the spec: \<open>m\<close> calls of \<open>Logger.shutdown\<close>, none started yet
  (\<open>logger.py\<close> is missing).
\<close>

definition shutdowns :: "nat \<Rightarrow> logger \<Rightarrow> world \<Rightarrow> spc list \<times> world" where
  "shutdowns m lg w = (replicate m (Visiting (handlers lg)), w)"

text \<open>
  The invariant of interleaved \<open>shutdown\<close> calls, relative to the handler list \<open>hs\<close> and
  the world \<open>w0\<close> they started in. \<open>about i\<close> selects the journal entries of handler
  \<open>i\<close>; \<open>flushing i\<close> and \<open>closing i\<close> count the calls suspended in its flush and in its
  close.
\<close>

fun remaining :: "spc \<Rightarrow> nat list" where
  "remaining (Visiting rest) = rest"
| "remaining (Flushing i rest) = rest"
| "remaining (Closing i rest) = rest"
| "remaining Done = []"

definition is_flushing :: "nat \<Rightarrow> spc \<Rightarrow> bool" where
  "is_flushing i p = (case p of Flushing j rest \<Rightarrow> j = i | _ \<Rightarrow> False)"

definition is_closing :: "nat \<Rightarrow> spc \<Rightarrow> bool" where
  "is_closing i p = (case p of Closing j rest \<Rightarrow> j = i | _ \<Rightarrow> False)"

definition flushing :: "nat \<Rightarrow> spc list \<Rightarrow> nat" where
  "flushing i ps = length (filter (is_flushing i) ps)"

definition closing :: "nat \<Rightarrow> spc list \<Rightarrow> nat" where
  "closing i ps = length (filter (is_closing i) ps)"

definition about :: "nat \<Rightarrow> request list \<Rightarrow> request list" where
  "about i js = filter (\<lambda>q. q = Flush i \<or> q = Close i) js"

text \<open>
  A guarded handler is registered, was initialized at the start, and has been flushed
  once; either no close call has been made yet and at most one \<open>shutdown\<close> call is
  suspended in its flush (exactly one when its writer never fails), or the close call has
  been made. An unguarded handler is untouched.
\<close>

definition tracked :: "nat list \<Rightarrow> world \<Rightarrow> spc list \<Rightarrow> world \<Rightarrow> nat \<Rightarrow> bool" where
  "tracked hs w0 ps w i =
     (if i \<in> set (guard w) then
        i \<in> set hs \<and> initialized (heap w0 i)
        \<and> ((about i (journal w) = about i (journal w0) @ [Flush i]
              \<and> closing i ps = 0 \<and> flushing i ps \<le> 1
              \<and> (faults (heap w0 i) = [] \<longrightarrow> flushing i ps = 1 \<and> faults (heap w i) = []))
           \<or> (about i (journal w) = about i (journal w0) @ [Flush i, Close i]
              \<and> flushing i ps = 0))
      else heap w i = heap w0 i \<and> about i (journal w) = about i (journal w0)
        \<and> flushing i ps = 0 \<and> closing i ps = 0)"

text \<open>
  Every handler a \<open>shutdown\<close> call has passed is guarded or was not initialized at the
  start.
\<close>

definition covered :: "nat list \<Rightarrow> world \<Rightarrow> world \<Rightarrow> spc \<Rightarrow> bool" where
  "covered hs w0 w p =
     (set (remaining p) \<subseteq> set hs
      \<and> (\<forall>k \<in> set hs. k \<in> set (remaining p) \<or> k \<in> set (guard w) \<or> \<not> initialized (heap w0 k)))"

definition sinv :: "nat list \<Rightarrow> world \<Rightarrow> spc list \<Rightarrow> world \<Rightarrow> bool" where
  "sinv hs w0 ps w = ((\<forall>p \<in> set ps. covered hs w0 w p) \<and> (\<forall>i. tracked hs w0 ps w i))"

text \<open>
  A guarded handler whose writer never fails is in one of three states: flushed up to
  the suspension, flushed and inside \<open>close\<close> up to the suspension, or flushed and closed
  as \<open>flush\<close> and \<open>close\<close> of \<open>streams.py\<close> leave it.
\<close>

definition settled :: "world \<Rightarrow> spc list \<Rightarrow> world \<Rightarrow> nat \<Rightarrow> bool" where
  "settled w0 ps w i =
     (faults (heap w0 i) = [] \<and> i \<in> set (guard w) \<longrightarrow>
        (flushing i ps = 1 \<and> closing i ps = 0 \<and> heap w i = snd (flush_call (heap w0 i)))
      \<or> (flushing i ps = 0 \<and> closing i ps = 1
            \<and> heap w i = snd (flush_call (snd (flush (heap w0 i)))))
      \<or> (flushing i ps = 0 \<and> closing i ps = 0
            \<and> heap w i = snd (close (snd (flush (heap w0 i))))))"

text \<open>The turns a \<open>shutdown\<close> call can still take: each turn lowers the number.\<close>

fun effort :: "spc \<Rightarrow> nat" where
  "effort (Visiting rest) = 2 * length rest + 1"
| "effort (Flushing i rest) = 2 * length rest + 2"
| "effort (Closing i rest) = 2 * length rest + 1"
| "effort Done = 0"

text \<open>
  Three handlers: one initialized whose \<open>drain\<close> raises \<open>ValueError\<close>, as the first mock
  of \<open>test_shutdown_ignores_erros\<close>; one initialized whose writer works; one that was never
  initialized.
\<close>

definition fleet :: world where
  "fleet = \<lparr>heap = (\<lambda>i. if i = 0 then piped_handler 10 message_only [Some ValueError]
                   else if i = 1 then piped_handler 30 message_only []
                   else new_handler 0 message_only []),
            guard = [], journal = []\<rparr>"

section \<open>Sequential behaviour of the handler\<close>

lemmas handler_defs = emit_def init_writer_def connect_call_def connect_resume_def
  try_except_def try_body_def writer_write_def drain_call_def drain_resume_def
  handle_error_def external_def completes_def initialized_def flush_def close_def
  close_finish_def writer_close_def

lemma connects_snoc [simp]:
  "connects (cs @ [c]) = (if c = ConnectWritePipe then Suc (connects cs) else connects cs)"
  by (simp add: connects_def)

lemma releases_snoc [simp]:
  "releases (cs @ [c]) = (case c of WriterClose w \<Rightarrow> Suc (releases cs) | _ \<Rightarrow> releases cs)"
  by (simp add: releases_def split: call.splits)

lemma ready_initialized: "initialized h \<Longrightarrow> ready h = h"
  by (simp add: ready_def)

lemma ready_lazy:
  "\<not> initialized h \<Longrightarrow> succeed 1 h \<Longrightarrow>
   ready h = h\<lparr>writer := Some (Suc (connects (calls h))), locked := False,
               stream := piped (Suc (connects (calls h))) (stream h),
               calls := calls h @ [ConnectWritePipe], faults := tl (faults h)\<rparr>"
  by (auto simp: ready_def handler_defs succeed_def split: list.splits)

lemma ready_keeps: "formatter (ready h) = formatter h \<and> level (ready h) = level h"
  by (simp add: ready_def handler_defs split: option.splits)

lemma emit_ready:
  "initialized h \<or> \<not> locked h \<and> succeed 1 h \<Longrightarrow>
   emit r h = Some (Returned, try_except r (ready h))"
  by (auto simp: ready_def emit_def init_writer_def connect_call_def connect_resume_def
      external_def completes_def succeed_def split: list.splits option.splits)

lemma try_format_failure:
  "formatter g r = Inl e \<Longrightarrow> try_except r g = g\<lparr>calls := calls g @ [HandleError r e]\<rparr>"
  by (simp add: handler_defs)

lemma try_encode_failure:
  "formatter g r = Inr m \<Longrightarrow> encode (m @ terminator) = Inl e \<Longrightarrow>
   try_except r g = g\<lparr>calls := calls g @ [HandleError r e]\<rparr>"
  by (simp add: handler_defs)

lemma try_write_failure:
  "formatter g r = Inr m \<Longrightarrow> encode (m @ terminator) = Inr b \<Longrightarrow> writer g = Some w \<Longrightarrow>
   faults g = Some e # fs \<Longrightarrow>
   try_except r g = g\<lparr>calls := calls g @ [WriterWrite w b, HandleError r e], faults := fs\<rparr>"
  by (simp add: handler_defs)

lemma try_drain_failure:
  "formatter g r = Inr m \<Longrightarrow> encode (m @ terminator) = Inr b \<Longrightarrow> writer g = Some w \<Longrightarrow>
   faults g = None # Some e # fs \<Longrightarrow>
   try_except r g =
     g\<lparr>calls := calls g @ [WriterWrite w b, WriterDrain w, HandleError r e],
       sink := (if stream g = Piped w then sink g @ b else sink g), faults := fs\<rparr>"
  by (simp add: handler_defs)


lemma emit_connect_failure:
  "\<not> initialized h \<Longrightarrow> \<not> locked h \<Longrightarrow> faults h = Some e # fs \<Longrightarrow>
   emit r h = Some (Raised e, h\<lparr>calls := calls h @ [ConnectWritePipe], faults := fs\<rparr>)"
  by (simp add: handler_defs)

lemma emit_connect_success:
  "\<not> initialized h \<Longrightarrow> \<not> locked h \<Longrightarrow> succeed 1 h \<Longrightarrow>
   \<exists>h'. emit r h = Some (Returned, h') \<and> writer h' = Some (Suc (connects (calls h)))"
  by (auto simp: handler_defs succeed_def split: list.splits option.splits sum.splits)

lemma emit_connect_first:
  "\<not> initialized h \<Longrightarrow> \<not> locked h \<Longrightarrow>
   \<exists>out h'. emit r h = Some (out, h')
     \<and> take (Suc (length (calls h))) (calls h') = calls h @ [ConnectWritePipe]"
  by (auto simp: handler_defs split: list.splits option.splits sum.splits)


lemma emit_shut:
  "stream h = Shut \<Longrightarrow> emit r h = Some (out, h') \<Longrightarrow> sink h' = sink h \<and> stream h' = Shut"
  by (auto simp: handler_defs piped_def split: if_splits list.splits option.splits sum.splits)

lemma close_first:
  "writer h = Some w \<Longrightarrow> succeed 2 h \<Longrightarrow>
   close h = (Returned,
     h\<lparr>writer := None, stream := Shut, calls := calls h @ [WriterDrain w, WriterClose w],
       faults := drop 2 (faults h)\<rparr>)"
  by (auto simp: handler_defs succeed_def split: list.splits option.splits)

lemma close_flush_failure:
  "writer h = Some w \<Longrightarrow> faults h = Some e # fs \<Longrightarrow>
   close h = (Raised e, h\<lparr>calls := calls h @ [WriterDrain w], faults := fs\<rparr>)"
  by (simp add: handler_defs)

lemma close_release_failure:
  "writer h = Some w \<Longrightarrow> faults h = None # Some e # fs \<Longrightarrow>
   close h = (Raised e, h\<lparr>calls := calls h @ [WriterDrain w, WriterClose w], faults := fs\<rparr>)"
  by (simp add: handler_defs)

lemma close_uninitialized: "\<not> initialized h \<Longrightarrow> close h = (Returned, h)"
  by (simp add: close_def)

lemma close_times_uninitialized:
  "\<not> initialized h \<Longrightarrow> close_times n h = (replicate n Returned, h)"
  by (induction n) (simp_all add: close_uninitialized)

lemma close_returned:
  "initialized h \<Longrightarrow> close h = (Returned, h') \<Longrightarrow>
   writer h' = None \<and> stream h' = Shut \<and> locked h' = locked h"
  by (auto simp: handler_defs split: list.splits option.splits prod.splits outcome.splits if_splits)

section \<open>flush\<close>

text \<open>
  C3 does not hold of \<open>flush\<close>. On a handler fresh from \<open>__init__\<close>, which was never
  initialized, \<open>flush\<close> is not a no-op: the lookup of \<open>drain\<close> on the absent writer raises
  \<open>AttributeError\<close>. \<open>close\<close> tests \<open>self.initialized\<close> first and returns normally on the
  same handler, leaving it unchanged; \<open>flush\<close> has no such test.
\<close>

theorem flush_uninitialized_raises:
  "flush (new_handler 0 message_only []) = (Raised AttributeError, new_handler 0 message_only [])
   \<and> close (new_handler 0 message_only []) = (Returned, new_handler 0 message_only [])"
  by (simp add: flush_def close_def initialized_def new_handler_def)

section \<open>Failures inside emit\<close>

text \<open>
  C2, as amended. Let \<open>emit\<close> be called on a handler that is initialized, or that is at
  rest and gets its writer (\<open>ready h\<close> is the handler as the \<open>try\<close> statement finds it:
  the handler itself, or the handler after the lazy initialization). Then \<open>emit\<close> returns
  normally, and a failure of the formatter, of the encoding, of \<open>writer.write\<close> or of
  \<open>writer.drain\<close> is passed to \<open>handle_error(record, failure)\<close>, the last call made. A
  failure of the sink acquisition during lazy initialization is not caught: \<open>emit\<close> raises
  it to its caller and \<open>handle_error\<close> is not called. The writer then remains absent and
  the lock is free, and the next \<open>emit\<close> starts with a new \<open>connect_write_pipe\<close>.
\<close>

theorem emit_failure_routing:
  "(initialized h \<or> \<not> locked h \<and> succeed 1 h \<longrightarrow>
      (\<exists>h'. emit r h = Some (Returned, h'))
      \<and> (formatter h r = Inl e \<longrightarrow>
           emit r h = Some (Returned, (ready h)\<lparr>calls := calls (ready h) @ [HandleError r e]\<rparr>))
      \<and> (formatter h r = Inr m \<and> encode (m @ terminator) = Inl e \<longrightarrow>
           emit r h = Some (Returned, (ready h)\<lparr>calls := calls (ready h) @ [HandleError r e]\<rparr>))
      \<and> (formatter h r = Inr m \<and> encode (m @ terminator) = Inr b \<and> writer (ready h) = Some w
           \<and> faults (ready h) = Some e # fs \<longrightarrow>
           emit r h = Some (Returned,
             (ready h)\<lparr>calls := calls (ready h) @ [WriterWrite w b, HandleError r e],
                       faults := fs\<rparr>))
      \<and> (formatter h r = Inr m \<and> encode (m @ terminator) = Inr b \<and> writer (ready h) = Some w
           \<and> faults (ready h) = None # Some e # fs \<longrightarrow>
           emit r h = Some (Returned,
             (ready h)\<lparr>calls := calls (ready h) @ [WriterWrite w b, WriterDrain w, HandleError r e],
                       sink := (if stream (ready h) = Piped w then sink (ready h) @ b
                                else sink (ready h)),
                       faults := fs\<rparr>)))
   \<and> (initialized h \<longrightarrow> ready h = h)
   \<and> (\<not> initialized h \<and> succeed 1 h \<longrightarrow>
        ready h = h\<lparr>writer := Some (Suc (connects (calls h))), locked := False,
                    stream := piped (Suc (connects (calls h))) (stream h),
                    calls := calls h @ [ConnectWritePipe], faults := tl (faults h)\<rparr>)
   \<and> (\<not> initialized h \<and> \<not> locked h \<and> faults h = Some e # fs \<longrightarrow>
        emit r h = Some (Raised e, h\<lparr>calls := calls h @ [ConnectWritePipe], faults := fs\<rparr>))
   \<and> (\<not> initialized h \<and> \<not> locked h \<longrightarrow>
        (\<exists>out h'. emit r h = Some (out, h')
           \<and> take (Suc (length (calls h))) (calls h') = calls h @ [ConnectWritePipe]))"
proof -
  have f: "formatter (ready h) = formatter h" by (simp add: ready_keeps)
  have routed: "(\<exists>h'. emit r h = Some (Returned, h'))
      \<and> (formatter h r = Inl e \<longrightarrow>
           emit r h = Some (Returned, (ready h)\<lparr>calls := calls (ready h) @ [HandleError r e]\<rparr>))
      \<and> (formatter h r = Inr m \<and> encode (m @ terminator) = Inl e \<longrightarrow>
           emit r h = Some (Returned, (ready h)\<lparr>calls := calls (ready h) @ [HandleError r e]\<rparr>))
      \<and> (formatter h r = Inr m \<and> encode (m @ terminator) = Inr b \<and> writer (ready h) = Some w
           \<and> faults (ready h) = Some e # fs \<longrightarrow>
           emit r h = Some (Returned,
             (ready h)\<lparr>calls := calls (ready h) @ [WriterWrite w b, HandleError r e],
                       faults := fs\<rparr>))
      \<and> (formatter h r = Inr m \<and> encode (m @ terminator) = Inr b \<and> writer (ready h) = Some w
           \<and> faults (ready h) = None # Some e # fs \<longrightarrow>
           emit r h = Some (Returned,
             (ready h)\<lparr>calls := calls (ready h) @ [WriterWrite w b, WriterDrain w, HandleError r e],
                       sink := (if stream (ready h) = Piped w then sink (ready h) @ b
                                else sink (ready h)),
                       faults := fs\<rparr>))"
    if a: "initialized h \<or> \<not> locked h \<and> succeed 1 h"
  proof -
    have e: "emit r h = Some (Returned, try_except r (ready h))" using a by (rule emit_ready)
    show ?thesis
      unfolding e
      using try_format_failure [of "ready h" r e] try_encode_failure [of "ready h" r m e]
        try_write_failure [of "ready h" r m b w e fs] try_drain_failure [of "ready h" r m b w e fs]
      unfolding f by simp
  qed
  show ?thesis
    using routed ready_initialized [of h] ready_lazy [of h]
      emit_connect_failure [of h e fs r] emit_connect_first [of h r]
    by blast
qed

text \<open>
  A handler fresh from \<open>__init__\<close> whose formatter raises \<open>ValueError\<close>: \<open>emit\<close> connects
  the pipe, hands the failure to the hook and returns normally. A fresh handler whose
  pipe cannot be connected: \<open>emit\<close> raises \<open>OSError\<close> and leaves the handler
  uninitialized; on the retry the pipe connects.
\<close>

theorem emit_failure_routing_witness:
  "emit xablau (new_handler 0 (\<lambda>r. Inl ValueError) []) =
     Some (Returned, (new_handler 0 (\<lambda>r. Inl ValueError) [])
        \<lparr>writer := Some 1, stream := Piped 1,
          calls := [ConnectWritePipe, HandleError xablau ValueError]\<rparr>)
   \<and> emit xablau (new_handler 0 message_only [Some OSError]) =
       Some (Raised OSError, (new_handler 0 message_only [])\<lparr>calls := [ConnectWritePipe]\<rparr>)
   \<and> (\<exists>h'. emit xablau ((new_handler 0 message_only [])\<lparr>calls := [ConnectWritePipe]\<rparr>)
          = Some (Returned, h'))"
proof -
  let ?f = "new_handler 0 (\<lambda>r. Inl ValueError) []"
  let ?g = "new_handler 0 message_only [Some OSError]"
  let ?k = "(new_handler 0 message_only [])\<lparr>calls := [ConnectWritePipe]\<rparr>"
  have a: "initialized ?f \<or> \<not> locked ?f \<and> succeed 1 ?f" "formatter ?f xablau = Inl ValueError"
    "\<not> initialized ?f \<and> succeed 1 ?f"
    by (simp_all add: new_handler_def initialized_def succeed_def)
  have b: "\<not> initialized ?g \<and> \<not> locked ?g \<and> faults ?g = Some OSError # []"
    by (simp add: new_handler_def initialized_def)
  have c: "initialized ?k \<or> \<not> locked ?k \<and> succeed 1 ?k"
    by (simp add: new_handler_def initialized_def succeed_def)
  have 1: "emit xablau ?f =
      Some (Returned, (ready ?f)\<lparr>calls := calls (ready ?f) @ [HandleError xablau ValueError]\<rparr>)"
    and 2: "ready ?f = ?f\<lparr>writer := Some (Suc (connects (calls ?f))), locked := False,
                    stream := piped (Suc (connects (calls ?f))) (stream ?f),
                    calls := calls ?f @ [ConnectWritePipe], faults := tl (faults ?f)\<rparr>"
    using emit_failure_routing [where h = ?f and r = xablau and e = ValueError] a by blast+
  have 3: "emit xablau ?g =
      Some (Raised OSError, ?g\<lparr>calls := calls ?g @ [ConnectWritePipe], faults := []\<rparr>)"
    using emit_failure_routing [where h = ?g and r = xablau and e = OSError and fs = "[]"] b
    by blast
  have 4: "\<exists>h'. emit xablau ?k = Some (Returned, h')"
    using emit_failure_routing [where h = ?k and r = xablau] c by blast
  show ?thesis
    unfolding 1 2 3 using 4 by (simp add: new_handler_def piped_def connects_def)
qed

text \<open>
  The claim as the specification states it fails there: the failure of the sink
  acquisition reaches the caller of \<open>emit\<close>, and the only call made is
  \<open>connect_write_pipe\<close>.
\<close>

theorem emit_propagates_connect_failure:
  "emit xablau (new_handler 0 message_only [Some OSError]) =
     Some (Raised OSError, (new_handler 0 message_only [])\<lparr>calls := [ConnectWritePipe]\<rparr>)"
  by (simp add: handler_defs new_handler_def)

section \<open>close\<close>

text \<open>
  C6, as amended. On an initialized handler whose \<open>drain\<close> and \<open>writer.close()\<close> do not
  raise, \<open>n \<ge> 1\<close> calls of \<open>close\<close> in a row all return normally and together make exactly
  one \<open>drain\<close> followed by exactly one \<open>writer.close()\<close>, on the handler's writer; the
  handler ends with no writer. When the \<open>drain\<close> of the flush raises, \<open>close\<close> raises it
  before the release and the handler stays initialized. When \<open>writer.close()\<close> raises,
  \<open>close\<close> raises it with the writer still in place, so that the next \<open>close\<close> releases
  again. On a handler that is closed or was never initialized, \<open>close\<close> returns normally
  and changes nothing, however often it is called.
\<close>

theorem close_releases_once:
  "(writer h = Some w \<and> succeed 2 h \<and> 1 \<le> n \<longrightarrow>
      close_times n h = (replicate n Returned,
         h\<lparr>writer := None, stream := Shut,
           calls := calls h @ [WriterDrain w, WriterClose w], faults := drop 2 (faults h)\<rparr>)
      \<and> releases (calls (snd (close_times n h))) = Suc (releases (calls h))
      \<and> \<not> initialized (snd (close_times n h)))
   \<and> (writer h = Some w \<and> faults h = Some e # fs \<longrightarrow>
        close h = (Raised e, h\<lparr>calls := calls h @ [WriterDrain w], faults := fs\<rparr>))
   \<and> (writer h = Some w \<and> faults h = None # Some e # fs \<longrightarrow>
        close h = (Raised e,
          h\<lparr>calls := calls h @ [WriterDrain w, WriterClose w], faults := fs\<rparr>))
   \<and> (\<not> initialized h \<longrightarrow>
        close h = (Returned, h) \<and> close_times n h = (replicate n Returned, h))"
proof -
  have "close_times n h = (replicate n Returned,
         h\<lparr>writer := None, stream := Shut,
           calls := calls h @ [WriterDrain w, WriterClose w], faults := drop 2 (faults h)\<rparr>)"
    if hw: "writer h = Some w" and ok: "succeed 2 h" and n1: "1 \<le> n"
  proof -
    obtain k where n: "n = Suc k" using n1 by (cases n) auto
    let ?h1 = "h\<lparr>writer := None, stream := Shut,
           calls := calls h @ [WriterDrain w, WriterClose w], faults := drop 2 (faults h)\<rparr>"
    have "\<not> initialized ?h1" by (simp add: initialized_def)
    then have "close_times k ?h1 = (replicate k Returned, ?h1)"
      by (rule close_times_uninitialized)
    then show ?thesis using hw ok by (simp add: n close_first)
  qed
  then show ?thesis
    using close_flush_failure [of h w e fs] close_release_failure [of h w e fs]
    by (auto simp: close_uninitialized close_times_uninitialized initialized_def releases_def)
qed

theorem close_releases_once_witness:
  "close_times 3 (piped_handler 0 message_only [])
     = ([Returned, Returned, Returned],
        (new_handler 0 message_only [])
          \<lparr>stream := Shut, calls := [ConnectWritePipe, WriterDrain 1, WriterClose 1]\<rparr>)
   \<and> close_times 2 (new_handler 0 message_only []) =
       ([Returned, Returned], new_handler 0 message_only [])
   \<and> close (piped_handler 0 message_only [Some OSError]) =
       (Raised OSError, (piped_handler 0 message_only [])
          \<lparr>calls := [ConnectWritePipe, WriterDrain 1]\<rparr>)"
  using
    close_releases_once [where h = "piped_handler 0 message_only []" and w = 1 and n = 3]
    close_releases_once [where h = "new_handler 0 message_only []" and n = 2]
    close_releases_once [where h = "piped_handler 0 message_only [Some OSError]" and w = 1
      and e = OSError and fs = "[]"]
  by (simp add: new_handler_def piped_handler_def initialized_def succeed_def
      numeral_3_eq_3 numeral_2_eq_2)

text \<open>
  The claim as the specification states it fails where the writer fails. With a
  \<open>drain\<close> that raises, the first \<open>close\<close> on an initialized handler raises and releases
  nothing. With a \<open>writer.close()\<close> that raises once, two calls of \<open>close\<close> make two
  releases.
\<close>

theorem close_releases_twice:
  "close (piped_handler 0 message_only [Some OSError]) =
     (Raised OSError, (piped_handler 0 message_only [])\<lparr>calls := [ConnectWritePipe, WriterDrain 1]\<rparr>)
   \<and> close_times 2 (piped_handler 0 message_only [None, Some OSError]) =
       ([Raised OSError, Returned],
        (new_handler 0 message_only [])
          \<lparr>stream := Shut,
            calls := [ConnectWritePipe, WriterDrain 1, WriterClose 1, WriterDrain 1, WriterClose 1]\<rparr>)
   \<and> releases [ConnectWritePipe, WriterDrain 1, WriterClose 1, WriterDrain 1, WriterClose 1] = 2"
  by (simp add: handler_defs new_handler_def piped_handler_def releases_def numeral_2_eq_2)

section \<open>emit after close\<close>

text \<open>
  C10, as amended. After a \<open>close\<close> that returned normally the handler has no writer, so
  it is not initialized; but it is not as \<open>__init__\<close> left it, because \<open>writer.close()\<close>
  has closed the handler's stream. An \<open>emit\<close> on the closed handler starts with a new
  \<open>connect_write_pipe\<close> on that stream. When the call raises, \<open>emit\<close> raises the failure
  to its caller. When the call succeeds, \<open>emit\<close> returns normally and the handler holds a
  new writer. In both cases nothing reaches the stream: the line of the record is lost.
\<close>

theorem emit_after_close:
  assumes "writer h = Some w" and "\<not> locked h" and "close h = (Returned, h')"
  shows "\<not> initialized h' \<and> stream h' = Shut
    \<and> (\<exists>out h''. emit r h' = Some (out, h'')
          \<and> take (Suc (length (calls h'))) (calls h'') = calls h' @ [ConnectWritePipe]
          \<and> sink h'' = sink h' \<and> stream h'' = Shut)
    \<and> (faults h' = Some e # fs \<longrightarrow>
          emit r h' = Some (Raised e, h'\<lparr>calls := calls h' @ [ConnectWritePipe], faults := fs\<rparr>))
    \<and> (succeed 1 h' \<longrightarrow>
          (\<exists>h''. emit r h' = Some (Returned, h'')
             \<and> writer h'' = Some (Suc (connects (calls h')))))"
proof -
  have i: "initialized h" using assms(1) by (simp add: initialized_def)
  from close_returned [OF i assms(3)] assms(2)
  have h': "\<not> initialized h'" "stream h' = Shut" "\<not> locked h'"
    by (simp_all add: initialized_def)
  from emit_connect_first [OF h'(1,3), of r]
  obtain out h'' where e: "emit r h' = Some (out, h'')"
    and c: "take (Suc (length (calls h'))) (calls h'') = calls h' @ [ConnectWritePipe]"
    by blast
  from emit_shut [OF h'(2) e] e c
  have "\<exists>out h''. emit r h' = Some (out, h'')
          \<and> take (Suc (length (calls h'))) (calls h'') = calls h' @ [ConnectWritePipe]
          \<and> sink h'' = sink h' \<and> stream h'' = Shut"
    by blast
  then show ?thesis
    using h' emit_connect_failure [OF h'(1,3), of e fs r] emit_connect_success [OF h'(1,3), of r]
    by blast
qed

text \<open>
  An initialized handler is closed, and then a record is emitted: the pipe is connected
  again, the line is written through writer 2, and the sink stays empty. When the event
  loop refuses the closed stream with \<open>ValueError\<close>, \<open>emit\<close> raises it.
\<close>

theorem emit_after_close_witness:
  "close (piped_handler 0 message_only [])
     = (Returned, (new_handler 0 message_only [])
          \<lparr>stream := Shut, calls := [ConnectWritePipe, WriterDrain 1, WriterClose 1]\<rparr>)
   \<and> (\<exists>h''. emit xablau ((new_handler 0 message_only [])
          \<lparr>stream := Shut, calls := [ConnectWritePipe, WriterDrain 1, WriterClose 1]\<rparr>)
         = Some (Returned, h'') \<and> writer h'' = Some 2 \<and> sink h'' = [] \<and> stream h'' = Shut)
   \<and> close (piped_handler 0 message_only [None, None, Some ValueError])
     = (Returned, (new_handler 0 message_only [Some ValueError])
          \<lparr>stream := Shut, calls := [ConnectWritePipe, WriterDrain 1, WriterClose 1]\<rparr>)
   \<and> emit xablau ((new_handler 0 message_only [Some ValueError])
          \<lparr>stream := Shut, calls := [ConnectWritePipe, WriterDrain 1, WriterClose 1]\<rparr>)
     = Some (Raised ValueError, (new_handler 0 message_only [])
          \<lparr>stream := Shut,
            calls := [ConnectWritePipe, WriterDrain 1, WriterClose 1, ConnectWritePipe]\<rparr>)"
proof -
  let ?h = "piped_handler 0 message_only []"
  let ?h' = "(new_handler 0 message_only [])
          \<lparr>stream := Shut, calls := [ConnectWritePipe, WriterDrain 1, WriterClose 1]\<rparr>"
  let ?g = "piped_handler 0 message_only [None, None, Some ValueError]"
  let ?g' = "(new_handler 0 message_only [Some ValueError])
          \<lparr>stream := Shut, calls := [ConnectWritePipe, WriterDrain 1, WriterClose 1]\<rparr>"
  have c: "close ?h = (Returned, ?h')" and d: "close ?g = (Returned, ?g')"
    by (simp_all add: handler_defs new_handler_def piped_handler_def)
  have w: "writer ?h = Some 1" "\<not> locked ?h" "writer ?g = Some 1" "\<not> locked ?g"
    by (simp_all add: new_handler_def piped_handler_def)
  have s: "succeed 1 ?h'" and f: "faults ?g' = Some ValueError # []"
    by (simp_all add: new_handler_def succeed_def)
  from emit_after_close [OF w(1,2) c, of xablau] s
  obtain h'' where 1: "emit xablau ?h' = Some (Returned, h'')"
    and 2: "writer h'' = Some (Suc (connects (calls ?h')))" by blast
  from emit_after_close [OF w(1,2) c, of xablau] 1
  have 3: "sink h'' = sink ?h' \<and> stream h'' = Shut" by auto
  from emit_after_close [OF w(3,4) d, of xablau ValueError "[]"] f
  have 4: "emit xablau ?g' =
      Some (Raised ValueError, ?g'\<lparr>calls := calls ?g' @ [ConnectWritePipe], faults := []\<rparr>)"
    by blast
  have 5: "\<exists>h''. emit xablau ?h' = Some (Returned, h'') \<and> writer h'' = Some 2 \<and> sink h'' = []
      \<and> stream h'' = Shut"
    using 1 2 3 by (simp add: new_handler_def connects_def)
  show ?thesis
    unfolding c d 4 using 5 by (simp add: new_handler_def)
qed

text \<open>
  The claim as the specification states it fails on every closed handler: \<open>emit\<close> after
  construction delivers the line \<open>Xablau!\<close> to the stream, \<open>emit\<close> after \<open>close\<close> delivers
  nothing; and when \<open>connect_write_pipe\<close> raises on the closed stream, \<open>emit\<close> fails.
\<close>

theorem emit_after_close_loses_line:
  "emit xablau (new_handler 0 message_only []) =
     Some (Returned, (new_handler 0 message_only [])
        \<lparr>writer := Some 1, stream := Piped 1,
          calls := [ConnectWritePipe, WriterWrite 1 [88, 97, 98, 108, 97, 117, 33, 10],
                    WriterDrain 1],
          sink := [88, 97, 98, 108, 97, 117, 33, 10]\<rparr>)
   \<and> close (piped_handler 0 message_only [])
     = (Returned, (new_handler 0 message_only [])
          \<lparr>stream := Shut, calls := [ConnectWritePipe, WriterDrain 1, WriterClose 1]\<rparr>)
   \<and> emit xablau ((new_handler 0 message_only [])
          \<lparr>stream := Shut, calls := [ConnectWritePipe, WriterDrain 1, WriterClose 1]\<rparr>)
     = Some (Returned, (new_handler 0 message_only [])
          \<lparr>writer := Some 2, stream := Shut,
            calls := [ConnectWritePipe, WriterDrain 1, WriterClose 1, ConnectWritePipe,
                      WriterWrite 2 [88, 97, 98, 108, 97, 117, 33, 10], WriterDrain 2],
            sink := []\<rparr>)
   \<and> emit xablau ((new_handler 0 message_only [Some ValueError])
          \<lparr>stream := Shut, calls := [ConnectWritePipe, WriterDrain 1, WriterClose 1]\<rparr>)
     = Some (Raised ValueError, (new_handler 0 message_only [])
          \<lparr>stream := Shut,
            calls := [ConnectWritePipe, WriterDrain 1, WriterClose 1, ConnectWritePipe]\<rparr>)"
  by (simp add: handler_defs piped_def new_handler_def piped_handler_def message_only_def
      xablau_def ascii_def terminator_def utf8_def connects_def)

section \<open>Interleaved emit calls: order of the lines\<close>

lemma written_simps [simp]:
  "written [] = []"
  "written (c # cs) = (case c of WriterWrite w b \<Rightarrow> [b] | _ \<Rightarrow> []) @ written cs"
  "written (cs @ ds) = written cs @ written ds"
  by (simp_all add: written_def)

lemmas step_defs = acquire_def try_start_def handler_defs









lemma encode_first: "encode (msg first @ terminator) = Inr [102, 105, 114, 115, 116, 10]"
  by (simp add: first_def ascii_def terminator_def utf8_def)

lemma encode_second: "encode (msg second @ terminator) = Inr [115, 101, 99, 111, 110, 100, 10]"
  by (simp add: second_def ascii_def terminator_def utf8_def)

lemma race_run:
  "run [0, 1, 0, 1, 0, 1, 1] (gather [first, second] (new_handler 0 message_only [])) =
     ([(first, Finished Returned), (second, Finished Returned)],
      (new_handler 0 message_only [])
        \<lparr>writer := Some 2, stream := Piped 1,
          calls := [ConnectWritePipe, WriterWrite 1 [102, 105, 114, 115, 116, 10], WriterDrain 1,
                    ConnectWritePipe, WriterWrite 2 [115, 101, 99, 111, 110, 100, 10],
                    WriterDrain 2],
          sink := [102, 105, 114, 115, 116, 10]\<rparr>)"
  by (simp add: gather_def turn_def step_defs piped_def new_handler_def message_only_def
      encode_first encode_second connects_def)






section \<open>Interleaved emit calls: lazy initialization\<close>

text \<open>
  C1 does not hold of \<open>_init_writer\<close>. Two \<open>emit\<close> calls are started on a handler fresh
  from \<open>__init__\<close>. The first takes the lock and waits for \<open>connect_write_pipe\<close>; the
  second finds no writer and waits for the lock. When the first has stored its writer
  and released the lock, the second takes the lock and, since the body of
  \<open>_init_writer\<close> does not test \<open>self.writer\<close> again, calls \<open>connect_write_pipe\<close> a second
  time: two acquisitions, and the second line goes out through a second writer that
  replaces the first.
\<close>

theorem emit_race_connects_twice:
  "connects (calls (snd
      (run [0, 1, 0, 1, 0, 1, 1] (gather [first, second] (new_handler 0 message_only []))))) = 2
   \<and> calls (snd (run [0, 1, 0, 1, 0, 1, 1] (gather [first, second] (new_handler 0 message_only []))))
       = [ConnectWritePipe, WriterWrite 1 [102, 105, 114, 115, 116, 10], WriterDrain 1,
          ConnectWritePipe, WriterWrite 2 [115, 101, 99, 111, 110, 100, 10], WriterDrain 2]
   \<and> fst (run [0, 1, 0, 1, 0, 1, 1] (gather [first, second] (new_handler 0 message_only [])))
       = [(first, Finished Returned), (second, Finished Returned)]"
  unfolding race_run by (simp add: connects_def)

section \<open>Dispatch by threshold\<close>

lemma emit_keeps:
  "emit r h = Some (out, h') \<Longrightarrow> level h' = level h \<and> filters h' = filters h"
  by (auto simp: handler_defs split: if_splits list.splits option.splits sum.splits)

lemma emit_healthy:
  "healthy h \<Longrightarrow> \<exists>h'. emit r h = Some (Returned, h') \<and> healthy h'"
  by (auto simp: healthy_def handler_defs succeed_def split: if_splits list.splits option.splits sum.splits)

lemma handle_healthy:
  "healthy h \<Longrightarrow> \<exists>h'. handle r h = Some (Returned, h') \<and> healthy h' \<and> level h' = level h"
  using emit_healthy [of h r] emit_keeps [of r h] by (auto simp: handle_def)

lemma call_loop_none_admitted:
  "filter (\<lambda>i. level (heap w i) \<le> levelno r) hs = [] \<Longrightarrow>
   call_loop hs r found w = Some (Returned, found, w)"
  by (induction hs) (auto split: if_splits)

lemma call_loop_admitted_healthy:
  assumes "\<forall>i \<in> set hs. level (heap w i) \<le> levelno r \<longrightarrow> healthy (heap w i)"
  shows "\<exists>w'. call_loop hs r found w =
            Some (Returned, found + length (filter (\<lambda>i. level (heap w i) \<le> levelno r) hs), w')
     \<and> journal w' = journal w @ map (\<lambda>i. Handle i r) (filter (\<lambda>i. level (heap w i) \<le> levelno r) hs)
     \<and> guard w' = guard w
     \<and> (\<forall>i. level (heap w' i) = level (heap w i))
     \<and> (\<forall>i. i \<notin> set hs \<longrightarrow> heap w' i = heap w i)"
  using assms
proof (induction hs arbitrary: w found)
  case Nil
  then show ?case by simp
next
  case (Cons i hs)
  show ?case
  proof (cases "level (heap w i) \<le> levelno r")
    case False
    with Cons.IH [of w found] Cons.prems show ?thesis by auto
  next
    case True
    from Cons.prems True have "healthy (heap w i)" by simp
    from handle_healthy [OF this, of r]
    obtain h' where h': "handle r (heap w i) = Some (Returned, h')" "healthy h'" "level h' = level (heap w i)"
      by blast
    let ?w = "handled i r h' w"
    have lv: "\<And>k. level (heap ?w k) = level (heap w k)"
      using h'(3) by (simp add: handled_def)
    have hl: "\<forall>k \<in> set hs. level (heap ?w k) \<le> levelno r \<longrightarrow> healthy (heap ?w k)"
      using Cons.prems h'(2) by (simp add: handled_def)
    from Cons.IH [OF hl, of "Suc found"] lv True h'(1)
    show ?thesis by (auto simp: handled_def)
  qed
qed

lemma count_list_filter:
  "count_list (filter P xs) i = (if P i then count_list xs i else 0)"
  by (induction xs) auto

lemma count_list_Handle:
  "count_list (map (\<lambda>i. Handle i r) xs) (Handle i r) = count_list xs i"
  by (induction xs) auto

lemma handle_keeps: "handle r h = Some (out, h') \<Longrightarrow> level h' = level h"
  using emit_keeps [of r h out h'] by (auto simp: handle_def split: if_splits)

lemma emit_raised: "emit r h = Some (Raised e, h') \<Longrightarrow> \<not> initialized h'"
  by (auto simp: emit_def init_writer_def connect_call_def connect_resume_def external_def
      completes_def initialized_def split: if_splits list.splits option.splits)

lemma handle_raised: "handle r h = Some (Raised e, h') \<Longrightarrow> \<not> initialized h'"
  using emit_raised [of r h e h'] by (auto simp: handle_def split: if_splits)

lemma call_loop_prefix:
  "call_loop hs r found w = Some (out, found', w') \<Longrightarrow>
   \<exists>k \<le> length (filter (\<lambda>i. level (heap w i) \<le> levelno r) hs).
      journal w' = journal w
          @ map (\<lambda>i. Handle i r) (take k (filter (\<lambda>i. level (heap w i) \<le> levelno r) hs))
      \<and> found' = found + k
      \<and> (out = Returned \<longrightarrow> k = length (filter (\<lambda>i. level (heap w i) \<le> levelno r) hs))
      \<and> (out \<noteq> Returned \<longrightarrow> 1 \<le> k
            \<and> \<not> initialized (heap w' (filter (\<lambda>i. level (heap w i) \<le> levelno r) hs ! (k - 1))))"
proof (induction hs arbitrary: found w)
  case Nil
  then show ?case by simp
next
  case (Cons i hs)
  let ?F = "\<lambda>w. filter (\<lambda>j. level (heap w j) \<le> levelno r) hs"
  show ?case
  proof (cases "level (heap w i) \<le> levelno r")
    case False
    with Cons.prems have "call_loop hs r found w = Some (out, found', w')" by simp
    from Cons.IH [OF this] False show ?thesis by simp
  next
    case True
    from Cons.prems True obtain o1 h1 where h1: "handle r (heap w i) = Some (o1, h1)"
      by (cases "handle r (heap w i)") auto
    let ?w = "handled i r h1 w"
    have lv: "level (heap ?w j) = level (heap w j)" for j
      using handle_keeps [OF h1] by (simp add: handled_def)
    then have F: "?F ?w = ?F w" by simp
    show ?thesis
    proof (cases o1)
      case (Raised e)
      with Cons.prems True h1 have o: "out = Raised e" "found' = Suc found" "w' = ?w" by simp_all
      from handle_raised [of r "heap w i" e h1] h1 Raised
      have "\<not> initialized (heap w' i)" by (simp add: o handled_def)
      then show ?thesis
        using True o by (intro exI [of _ 1]) (simp add: handled_def)
    next
      case Returned
      with Cons.prems True h1 have "call_loop hs r (Suc found) ?w = Some (out, found', w')"
        by simp
      from Cons.IH [OF this] obtain k where k: "k \<le> length (?F w)"
        "journal w' = journal ?w @ map (\<lambda>i. Handle i r) (take k (?F w))"
        "found' = Suc found + k" "out = Returned \<longrightarrow> k = length (?F w)"
        "out \<noteq> Returned \<longrightarrow> 1 \<le> k \<and> \<not> initialized (heap w' (?F w ! (k - 1)))"
        unfolding F by blast
      have "out \<noteq> Returned \<longrightarrow> \<not> initialized (heap w' ((i # ?F w) ! (Suc k - 1)))"
        using k(5) by (cases k) auto
      with k True show ?thesis
        by (intro exI [of _ "Suc k"]) (simp add: handled_def)
    qed
  qed
qed

text \<open>
  C4, as amended. When no registered handler has a threshold at or below the level of the
  record, \<open>call_handlers\<close> raises the unroutable-record error and contacts no handler.
  Otherwise the admitted handlers are handed the record in registration order, one
  \<open>handle\<close> call per registration, until a call raises: \<open>call_handlers\<close> catches nothing,
  so a handler whose sink acquisition fails ends the dispatch with that failure, and the
  admitted handlers registered after it receive no call. When \<open>call_handlers\<close> returns
  normally, every admitted handler has received exactly one call per registration, and
  it does return normally where the admitted handlers are at rest and able to get their
  writer. A handler whose threshold exceeds the level never receives a call.
\<close>

theorem call_handlers_by_threshold:
  "(admitted lg r w = [] \<longrightarrow> call_handlers lg r w = Some (Raised unroutable, w))
   \<and> (admitted lg r w \<noteq> [] \<and> call_handlers lg r w = Some (out, w') \<longrightarrow>
        (\<exists>k. 1 \<le> k \<and> k \<le> length (admitted lg r w)
           \<and> journal w' = journal w @ map (\<lambda>i. Handle i r) (take k (admitted lg r w))
           \<and> (out = Returned \<longrightarrow> k = length (admitted lg r w))
           \<and> (out \<noteq> Returned \<longrightarrow> \<not> initialized (heap w' (admitted lg r w ! (k - 1))))))
   \<and> (admitted lg r w \<noteq> [] \<and> (\<forall>i \<in> set (admitted lg r w). healthy (heap w i)) \<longrightarrow>
        (\<exists>w'. call_handlers lg r w = Some (Returned, w')
           \<and> journal w' = journal w @ map (\<lambda>i. Handle i r) (admitted lg r w)))
   \<and> (\<forall>i. count_list (map (\<lambda>i. Handle i r) (admitted lg r w)) (Handle i r) =
            (if level (heap w i) \<le> levelno r then count_list (handlers lg) i else 0))"
proof (intro conjI impI)
  assume "admitted lg r w = []"
  then show "call_handlers lg r w = Some (Raised unroutable, w)"
    by (simp add: call_handlers_def admitted_def call_loop_none_admitted)
next
  assume a: "admitted lg r w \<noteq> [] \<and> call_handlers lg r w = Some (out, w')"
  then obtain o1 found' w1 where l: "call_loop (handlers lg) r 0 w = Some (o1, found', w1)"
    by (cases "call_loop (handlers lg) r 0 w") (auto simp: call_handlers_def)
  from call_loop_prefix [OF l] obtain k where k: "k \<le> length (admitted lg r w)"
    "journal w1 = journal w @ map (\<lambda>i. Handle i r) (take k (admitted lg r w))"
    "found' = k" "o1 = Returned \<longrightarrow> k = length (admitted lg r w)"
    "o1 \<noteq> Returned \<longrightarrow> 1 \<le> k \<and> \<not> initialized (heap w1 (admitted lg r w ! (k - 1)))"
    unfolding admitted_def by auto
  have pos: "1 \<le> k" using k(4,5) a by (cases "o1 = Returned") (auto simp: Suc_le_eq)
  have "out = o1 \<and> w' = w1"
    using a l k(3) pos by (cases o1) (auto simp: call_handlers_def)
  with k pos show "\<exists>k. 1 \<le> k \<and> k \<le> length (admitted lg r w)
           \<and> journal w' = journal w @ map (\<lambda>i. Handle i r) (take k (admitted lg r w))
           \<and> (out = Returned \<longrightarrow> k = length (admitted lg r w))
           \<and> (out \<noteq> Returned \<longrightarrow> \<not> initialized (heap w' (admitted lg r w ! (k - 1))))"
    by blast
next
  assume a: "admitted lg r w \<noteq> [] \<and> (\<forall>i \<in> set (admitted lg r w). healthy (heap w i))"
  then have "\<forall>i \<in> set (handlers lg). level (heap w i) \<le> levelno r \<longrightarrow> healthy (heap w i)"
    by (simp add: admitted_def)
  from call_loop_admitted_healthy [OF this, of 0]
  obtain w' where w': "call_loop (handlers lg) r 0 w = Some (Returned, length (admitted lg r w), w')"
      "journal w' = journal w @ map (\<lambda>i. Handle i r) (admitted lg r w)"
    by (auto simp: admitted_def)
  from a have "length (admitted lg r w) \<noteq> 0" by simp
  with w' have "call_handlers lg r w = Some (Returned, w')"
    by (simp add: call_handlers_def)
  with w'(2) show "\<exists>w'. call_handlers lg r w = Some (Returned, w')
           \<and> journal w' = journal w @ map (\<lambda>i. Handle i r) (admitted lg r w)"
    by simp
next
  show "\<forall>i. count_list (map (\<lambda>i. Handle i r) (admitted lg r w)) (Handle i r) =
            (if level (heap w i) \<le> levelno r then count_list (handlers lg) i else 0)"
    by (simp add: count_list_Handle admitted_def count_list_filter)
qed

text \<open>
  The loggers of the tests: with no handler the record is unroutable; with the handlers
  of level 10 and 30 a record of level 20 reaches the first handler only. With a first
  handler that cannot connect its pipe, \<open>call_handlers\<close> raises after one call.
\<close>

theorem call_handlers_by_threshold_witness:
  "call_handlers (test_logger []) xablau mocks = Some (Raised unroutable, mocks)
   \<and> (\<exists>w'. call_handlers (test_logger [0, 1]) first mocks = Some (Returned, w')
         \<and> journal w' = [Handle 0 first])
   \<and> (\<exists>w' k. call_handlers (test_logger [0, 1]) xablau unconnected = Some (Raised OSError, w')
         \<and> 1 \<le> k \<and> k \<le> 2 \<and> journal w' = map (\<lambda>i. Handle i xablau) (take k [0, 1])
         \<and> \<not> initialized (heap w' ([0, 1] ! (k - 1))))"
proof -
  have a0: "admitted (test_logger []) xablau mocks = []"
    by (simp add: admitted_def test_logger_def)
  have a1: "admitted (test_logger [0, 1]) first mocks = [0]"
    by (simp add: admitted_def test_logger_def mocks_def new_handler_def piped_handler_def
        first_def)
  have a2: "admitted (test_logger [0, 1]) xablau unconnected = [0, 1]"
    by (simp add: admitted_def test_logger_def unconnected_def new_handler_def
        piped_handler_def xablau_def)
  have h: "\<forall>i \<in> set [0]. healthy (heap mocks i)"
    by (simp add: mocks_def new_handler_def piped_handler_def healthy_def initialized_def)
  have j: "journal mocks = []" "journal unconnected = []"
    by (simp_all add: mocks_def unconnected_def)
  obtain w2 where c: "call_handlers (test_logger [0, 1]) xablau unconnected = Some (Raised OSError, w2)"
    by (simp add: call_handlers_def test_logger_def unconnected_def handle_def passes_def
        new_handler_def piped_handler_def xablau_def handler_defs)
  have 1: "call_handlers (test_logger []) xablau mocks = Some (Raised unroutable, mocks)"
    using call_handlers_by_threshold [of "test_logger []" xablau mocks] a0 by blast
  have 2: "\<exists>w'. call_handlers (test_logger [0, 1]) first mocks = Some (Returned, w')
         \<and> journal w' = [Handle 0 first]"
    using call_handlers_by_threshold [of "test_logger [0, 1]" first mocks] a1 h j by auto
  have 3: "\<exists>k. 1 \<le> k \<and> k \<le> 2 \<and> journal w2 = map (\<lambda>i. Handle i xablau) (take k [0, 1])
         \<and> \<not> initialized (heap w2 ([0, 1] ! (k - 1)))"
    using call_handlers_by_threshold [of "test_logger [0, 1]" xablau unconnected
        "Raised OSError" w2] a2 j c by auto
  from 1 2 3 c show ?thesis by blast
qed

text \<open>
  The claim as the specification states it fails where an admitted handler cannot
  acquire its sink: both handlers admit the record, the first raises \<open>OSError\<close> from
  \<open>connect_write_pipe\<close>, \<open>call_handlers\<close> raises it, and the second handler has received
  no call.
\<close>

theorem call_handlers_aborts:
  "admitted (test_logger [0, 1]) xablau unconnected = [0, 1]
   \<and> map_option fst (call_handlers (test_logger [0, 1]) xablau unconnected)
       = Some (Raised OSError)
   \<and> map_option (\<lambda>c. journal (snd c)) (call_handlers (test_logger [0, 1]) xablau unconnected)
       = Some [Handle 0 xablau]
   \<and> map_option (\<lambda>c. calls (heap (snd c) 1)) (call_handlers (test_logger [0, 1]) xablau unconnected)
       = Some [ConnectWritePipe]"
  by (simp add: admitted_def call_handlers_def test_logger_def unconnected_def handle_def
      handled_def passes_def new_handler_def piped_handler_def xablau_def handler_defs)

section \<open>What emit writes\<close>





section \<open>The two views of the handler agree\<close>

lemma flush_in_two:
  "flush h = (case flush_call h of
                (Raised e, h1) \<Rightarrow> (Raised e, h1)
              | (Returned, h1) \<Rightarrow> drain_resume h1)"
  by (simp add: flush_def flush_call_def split: option.splits)

lemma turn_one:
  "turn 0 ([(r, p)], h) = (case emit_step r p h of (p', h') \<Rightarrow> ([(r, p')], h'))"
  by (simp add: turn_def split: prod.splits)

lemma emit_alone:
  assumes "\<not> locked h"
  shows "\<exists>out h'. emit r h = Some (out, h')
           \<and> run [0, 0, 0] (gather [r] h) = ([(r, Finished out)], h')"
  using assms
  by (auto simp: gather_def turn_one step_defs split: option.splits sum.splits list.splits)

lemma emit_blocked:
  assumes "\<not> initialized h" and "locked h"
  shows "emit r h = None \<and> run (replicate (Suc n) 0) (gather [r] h) = ([(r, WaitLock)], h)"
proof -
  have w: "run (replicate k 0) ([(r, WaitLock)], h) = ([(r, WaitLock)], h)" for k
    using assms(2) by (induction k) (simp_all add: turn_one acquire_def)
  have "turn 0 (gather [r] h) = ([(r, WaitLock)], h)"
    using assms by (simp add: gather_def turn_one acquire_def)
  with w [of n] assms show ?thesis
    by (simp add: emit_def init_writer_def)
qed

section \<open>Shutdown: the invariant\<close>

lemma count_update:
  "t < length ps \<Longrightarrow>
   length (filter P (ps[t := p])) + (if P (ps ! t) then 1 else 0)
     = length (filter P ps) + (if P p then 1 else 0)"
proof (induction ps arbitrary: t)
  case Nil
  then show ?case by simp
next
  case (Cons a ps)
  then show ?case by (cases t) auto
qed

lemma flushing_update:
  "t < length ps \<Longrightarrow>
   flushing i (ps[t := p]) + (if is_flushing i (ps ! t) then 1 else 0)
     = flushing i ps + (if is_flushing i p then 1 else 0)"
  unfolding flushing_def by (rule count_update)

lemma closing_update:
  "t < length ps \<Longrightarrow>
   closing i (ps[t := p]) + (if is_closing i (ps ! t) then 1 else 0)
     = closing i ps + (if is_closing i p then 1 else 0)"
  unfolding closing_def by (rule count_update)

lemma about_simps [simp]:
  "about i [] = []"
  "about i (js @ ks) = about i js @ about i ks"
  "about i (q # js) = (if q = Flush i \<or> q = Close i then [q] else []) @ about i js"
  by (simp_all add: about_def)

lemma covered_update:
  assumes "\<forall>q \<in> set qs. covered hs w0 w q" and "covered hs w0 w' p"
    and "set (guard w) \<subseteq> set (guard w')"
  shows "\<forall>q \<in> set (qs[t := p]). covered hs w0 w' q"
proof
  fix q assume "q \<in> set (qs[t := p])"
  then have "q = p \<or> q \<in> set qs"
    using set_update_subset_insert [of qs t p] by auto
  then show "covered hs w0 w' q"
    using assms by (auto simp: covered_def)
qed

lemma sinv_skip:
  assumes "sinv hs w0 qs w" and "t < length qs" and "qs ! t = Visiting (i # rest)"
    and "i \<in> set (guard w) \<or> \<not> initialized (heap w i)"
  shows "sinv hs w0 (qs[t := Visiting rest]) w"
proof -
  have old: "covered hs w0 w (Visiting (i # rest))"
    using assms(1-3) by (auto simp: sinv_def dest: nth_mem)
  have ti: "tracked hs w0 qs w i" using assms(1) by (simp add: sinv_def)
  have "i \<in> set (guard w) \<or> \<not> initialized (heap w0 i)"
    using assms(4) ti by (auto simp: tracked_def split: if_splits)
  with old have "covered hs w0 w (Visiting rest)"
    by (auto simp: covered_def)
  with assms(1) have c: "\<forall>q \<in> set (qs[t := Visiting rest]). covered hs w0 w q"
    by (intro covered_update [where w = w]) (auto simp: sinv_def)
  have "tracked hs w0 (qs[t := Visiting rest]) w j" for j
  proof -
    have "tracked hs w0 qs w j" using assms(1) by (simp add: sinv_def)
    then show ?thesis
      using flushing_update [OF assms(2), of j "Visiting rest"]
        closing_update [OF assms(2), of j "Visiting rest"] assms(3)
      by (auto simp: tracked_def is_flushing_def is_closing_def split: if_splits)
  qed
  with c show ?thesis by (simp add: sinv_def)
qed

lemma sinv_mark:
  assumes "sinv hs w0 qs w" and "t < length qs" and "qs ! t = Visiting (i # rest)"
    and "i \<notin> set (guard w)" and "initialized (heap w i)" and "writer (heap w i) = Some wr"
  shows "sinv hs w0 (qs[t := Flushing i rest])
           (put i (drain_call wr (heap w i)) (noted (Flush i) (mark i w)))"
proof -
  let ?w = "put i (drain_call wr (heap w i)) (noted (Flush i) (mark i w))"
  have g: "guard ?w = i # guard w" and j: "journal ?w = journal w @ [Flush i]"
    and hp: "heap ?w = (heap w)(i := drain_call wr (heap w i))"
    by (simp_all add: put_def noted_def mark_def)
  have old: "covered hs w0 w (Visiting (i # rest))"
    using assms(1-3) by (auto simp: sinv_def dest: nth_mem)
  then have "covered hs w0 ?w (Flushing i rest)"
    by (auto simp: covered_def g)
  with assms(1) have c: "\<forall>q \<in> set (qs[t := Flushing i rest]). covered hs w0 ?w q"
    by (intro covered_update [where w = w]) (auto simp: sinv_def g)
  have ti: "tracked hs w0 qs w i" using assms(1) by (simp add: sinv_def)
  have ihs: "i \<in> set hs" using old by (simp add: covered_def)
  have "tracked hs w0 (qs[t := Flushing i rest]) ?w k" for k
  proof (cases "k = i")
    case True
    show ?thesis
      using ti assms(4,5) ihs flushing_update [OF assms(2), of i "Flushing i rest"]
        closing_update [OF assms(2), of i "Flushing i rest"] assms(3)
      by (auto simp: True tracked_def put_def noted_def mark_def is_flushing_def is_closing_def
          drain_call_def external_def split: if_splits)
  next
    case False
    have "tracked hs w0 qs w k" using assms(1) by (simp add: sinv_def)
    then show ?thesis
      using False flushing_update [OF assms(2), of k "Flushing i rest"]
        closing_update [OF assms(2), of k "Flushing i rest"] assms(3)
      by (auto simp: tracked_def put_def noted_def mark_def is_flushing_def is_closing_def
          split: if_splits)
  qed
  with c show ?thesis by (simp add: sinv_def)
qed

lemma sinv_visit:
  assumes "sinv hs w0 qs w" and "t < length qs" and "qs ! t = Visiting rest"
    and "visit rest w = (p, w')"
  shows "sinv hs w0 (qs[t := p]) w'"
  using assms
proof (induction rest arbitrary: qs)
  case Nil
  have "covered hs w0 w (qs ! t)"
    using Nil.prems(1,2) by (simp add: sinv_def)
  then have "covered hs w0 w Done"
    by (simp add: Nil.prems(3) covered_def)
  with Nil.prems(1) have c: "\<forall>q \<in> set (qs[t := Done]). covered hs w0 w q"
    by (intro covered_update [where w = w]) (auto simp: sinv_def)
  have "tracked hs w0 (qs[t := Done]) w j" for j
  proof -
    have "tracked hs w0 qs w j" using Nil.prems(1) by (simp add: sinv_def)
    then show ?thesis
      using flushing_update [OF Nil.prems(2), of j Done]
        closing_update [OF Nil.prems(2), of j Done] Nil.prems(3)
      by (auto simp: tracked_def is_flushing_def is_closing_def split: if_splits)
  qed
  with c Nil.prems(4) show ?case by (auto simp: sinv_def)
next
  case (Cons i rest)
  show ?case
  proof (cases "i \<in> set (guard w) \<or> \<not> initialized (heap w i)")
    case True
    from sinv_skip [OF Cons.prems(1-3) True]
    have s: "sinv hs w0 (qs[t := Visiting rest]) w" .
    from Cons.prems(4) True have v: "visit rest w = (p, w')" by simp
    from Cons.IH [OF s _ _ v] Cons.prems(2) show ?thesis by simp
  next
    case False
    then obtain wr where wr: "writer (heap w i) = Some wr"
      by (auto simp: initialized_def)
    from False wr Cons.prems(4)
    have "p = Flushing i rest" "w' = put i (drain_call wr (heap w i)) (noted (Flush i) (mark i w))"
      by (simp_all add: flush_call_def)
    with sinv_mark [OF Cons.prems(1-3) _ _ wr] False show ?thesis by simp
  qed
qed

lemma flushing_pos:
  "t < length qs \<Longrightarrow> is_flushing i (qs ! t) \<Longrightarrow> 0 < flushing i qs"
  unfolding flushing_def by (auto simp: filter_empty_conv dest: nth_mem)

lemma closing_pos:
  "t < length qs \<Longrightarrow> is_closing i (qs ! t) \<Longrightarrow> 0 < closing i qs"
  unfolding closing_def by (auto simp: filter_empty_conv dest: nth_mem)

lemma covered_same_rest:
  assumes "sinv hs w0 qs w" and "t < length qs" and "remaining p = remaining (qs ! t)"
    and "guard w' = guard w"
  shows "\<forall>q \<in> set (qs[t := p]). covered hs w0 w' q"
proof -
  have "covered hs w0 w (qs ! t)" using assms(1,2) by (simp add: sinv_def)
  then have "covered hs w0 w' p" using assms(3,4) by (simp add: covered_def)
  moreover have "\<forall>q \<in> set qs. covered hs w0 w q" using assms(1) by (simp add: sinv_def)
  ultimately show ?thesis
    using assms(4) by (intro covered_update [where w = w]) auto
qed

lemma sinv_flush_failed:
  assumes "sinv hs w0 qs w" and "t < length qs" and "qs ! t = Flushing i rest"
    and "drain_resume (heap w i) = (Raised e, h1)"
  shows "sinv hs w0 (qs[t := Visiting rest]) (put i h1 w)"
proof -
  let ?w = "put i h1 w"
  have c: "\<forall>q \<in> set (qs[t := Visiting rest]). covered hs w0 ?w q"
    using assms(1-3) by (intro covered_same_rest [where w = w]) (simp_all add: put_def)
  have pos: "0 < flushing i qs"
    using flushing_pos [OF assms(2), of i] assms(3) by (simp add: is_flushing_def)
  have nf: "faults (heap w i) \<noteq> []"
    using assms(4) by (auto simp: drain_resume_def completes_def split: list.splits option.splits)
  have "tracked hs w0 (qs[t := Visiting rest]) ?w k" for k
  proof -
    have "tracked hs w0 qs w k" using assms(1) by (simp add: sinv_def)
    then show ?thesis
      using flushing_update [OF assms(2), of k "Visiting rest"]
        closing_update [OF assms(2), of k "Visiting rest"] assms(3) pos nf
      by (cases "k = i")
        (auto simp: tracked_def put_def is_flushing_def is_closing_def split: if_splits)
  qed
  with c show ?thesis by (simp add: sinv_def)
qed

lemma sinv_close_noted:
  assumes "sinv hs w0 qs w" and "t < length qs" and "qs ! t = Flushing i rest"
    and "p = Visiting rest \<or> p = Closing i rest"
  shows "sinv hs w0 (qs[t := p]) (noted (Close i) (put i h' w))"
proof -
  let ?w = "noted (Close i) (put i h' w)"
  have c: "\<forall>q \<in> set (qs[t := p]). covered hs w0 ?w q"
    using assms(1-4) by (intro covered_same_rest [where w = w]) (auto simp: put_def noted_def)
  have pos: "0 < flushing i qs"
    using flushing_pos [OF assms(2), of i] assms(3) by (simp add: is_flushing_def)
  have "tracked hs w0 (qs[t := p]) ?w k" for k
  proof -
    have "tracked hs w0 qs w k" using assms(1) by (simp add: sinv_def)
    then show ?thesis
      using flushing_update [OF assms(2), of k p]
        closing_update [OF assms(2), of k p] assms(3,4) pos
      by (cases "k = i")
        (auto simp: tracked_def put_def noted_def is_flushing_def is_closing_def split: if_splits)
  qed
  with c show ?thesis by (simp add: sinv_def)
qed

lemma sinv_closing_done:
  assumes "sinv hs w0 qs w" and "t < length qs" and "qs ! t = Closing i rest"
  shows "sinv hs w0 (qs[t := Visiting rest]) (put i h' w)"
proof -
  let ?w = "put i h' w"
  have c: "\<forall>q \<in> set (qs[t := Visiting rest]). covered hs w0 ?w q"
    using assms(1-3) by (intro covered_same_rest [where w = w]) (simp_all add: put_def)
  have pos: "0 < closing i qs"
    using closing_pos [OF assms(2), of i] assms(3) by (simp add: is_closing_def)
  have "tracked hs w0 (qs[t := Visiting rest]) ?w k" for k
  proof -
    have "tracked hs w0 qs w k" using assms(1) by (simp add: sinv_def)
    then show ?thesis
      using flushing_update [OF assms(2), of k "Visiting rest"]
        closing_update [OF assms(2), of k "Visiting rest"] assms(3) pos
      by (cases "k = i")
        (auto simp: tracked_def put_def is_flushing_def is_closing_def split: if_splits)
  qed
  with c show ?thesis by (simp add: sinv_def)
qed

lemma visit_after:
  assumes "sinv hs w0 (qs[t := Visiting rest]) w" and "t < length qs"
    and "visit rest w = (p, w')"
  shows "sinv hs w0 (qs[t := p]) w'"
  using sinv_visit [OF assms(1) _ _ assms(3), of t] assms(2) by simp

lemma sinv_step:
  assumes "sinv hs w0 qs w" and "t < length qs" and "shutdown_step (qs ! t) w = (p, w')"
  shows "sinv hs w0 (qs[t := p]) w'"
proof (cases "qs ! t")
  case (Visiting rest)
  with assms(3) have "visit rest w = (p, w')" by simp
  from sinv_visit [OF assms(1,2) Visiting this] show ?thesis .
next
  case (Flushing i rest)
  obtain out h1 where d: "drain_resume (heap w i) = (out, h1)"
    by (cases "drain_resume (heap w i)")
  show ?thesis
  proof (cases out)
    case (Raised e)
    with d assms(3) Flushing have v: "visit rest (put i h1 w) = (p, w')" by simp
    from sinv_flush_failed [OF assms(1,2) Flushing d [unfolded Raised]]
    show ?thesis by (rule visit_after [OF _ assms(2) v])
  next
    case Returned
    show ?thesis
    proof (cases "initialized h1")
      case False
      with d Returned assms(3) Flushing
      have v: "visit rest (noted (Close i) (put i h1 w)) = (p, w')" by simp
      from sinv_close_noted [OF assms(1,2) Flushing, of "Visiting rest" h1]
      show ?thesis by (intro visit_after [OF _ assms(2) v]) simp
    next
      case True
      then obtain wr where "writer h1 = Some wr" by (auto simp: initialized_def)
      with True d Returned assms(3) Flushing
      have "p = Closing i rest" "w' = noted (Close i) (put i (drain_call wr h1) w)"
        by (simp_all add: flush_call_def)
      with sinv_close_noted [OF assms(1,2) Flushing, of "Closing i rest" "drain_call wr h1"]
      show ?thesis by simp
    qed
  qed
next
  case (Closing i rest)
  obtain out h1 where d: "drain_resume (heap w i) = (out, h1)"
    by (cases "drain_resume (heap w i)")
  then obtain h' where v: "visit rest (put i h' w) = (p, w')"
    using assms(3) Closing by (cases out) auto
  from sinv_closing_done [OF assms(1,2) Closing, of h']
  show ?thesis by (rule visit_after [OF _ assms(2) v])
next
  case Done
  with assms(3) have "p = Done" "w' = w" by simp_all
  moreover have "qs[t := Done] = qs" using list_update_id [of qs t] Done by simp
  ultimately show ?thesis using assms(1) by simp
qed

lemma sinv_run:
  "sinv hs w0 qs w \<Longrightarrow> shutdown_run sched (qs, w) = (qs', w') \<Longrightarrow> sinv hs w0 qs' w'"
proof (induction sched arbitrary: qs w)
  case Nil
  then show ?case by simp
next
  case (Cons t sched)
  show ?case
  proof (cases "t < length qs")
    case False
    with Cons show ?thesis by (simp add: shutdown_turn_def)
  next
    case True
    obtain p w1 where s: "shutdown_step (qs ! t) w = (p, w1)"
      by (cases "shutdown_step (qs ! t) w")
    from sinv_step [OF Cons.prems(1) True s] have "sinv hs w0 (qs[t := p]) w1" .
    moreover from Cons.prems(2) True s
    have "shutdown_run sched (qs[t := p], w1) = (qs', w')" by (simp add: shutdown_turn_def)
    ultimately show ?thesis by (rule Cons.IH)
  qed
qed

lemma sinv_initial:
  "guard w = [] \<Longrightarrow> sinv hs w (replicate m (Visiting hs)) w"
  by (auto simp: sinv_def covered_def tracked_def flushing_def closing_def
      is_flushing_def is_closing_def)

lemma clean_resume:
  "faults h = [] \<Longrightarrow> drain_resume h = (Returned, h)"
  by (cases h) (simp add: drain_resume_def completes_def)

lemma settled_skip:
  assumes "settled w0 qs w k" and "t < length qs" and "qs ! t = Visiting (i # rest)"
  shows "settled w0 (qs[t := Visiting rest]) w k"
  using assms(1) flushing_update [OF assms(2), of k "Visiting rest"]
    closing_update [OF assms(2), of k "Visiting rest"] assms(3)
  by (auto simp: settled_def is_flushing_def is_closing_def)

lemma settled_done:
  assumes "settled w0 qs w k" and "t < length qs" and "qs ! t = Visiting []"
  shows "settled w0 (qs[t := Done]) w k"
  using assms(1) flushing_update [OF assms(2), of k Done]
    closing_update [OF assms(2), of k Done] assms(3)
  by (auto simp: settled_def is_flushing_def is_closing_def)

lemma settled_mark:
  assumes "sinv hs w0 qs w" and "settled w0 qs w k" and "t < length qs"
    and "qs ! t = Visiting (i # rest)"
    and "i \<notin> set (guard w)" and "writer (heap w i) = Some wr"
  shows "settled w0 (qs[t := Flushing i rest])
           (put i (drain_call wr (heap w i)) (noted (Flush i) (mark i w))) k"
proof -
  have ti: "tracked hs w0 qs w i" using assms(1) by (simp add: sinv_def)
  show ?thesis
    using assms(2,5,6) ti flushing_update [OF assms(3), of k "Flushing i rest"]
      closing_update [OF assms(3), of k "Flushing i rest"] assms(4)
    by (cases "k = i")
      (auto simp: settled_def tracked_def put_def noted_def mark_def is_flushing_def
        is_closing_def flush_call_def split: if_splits)
qed

lemma settled_visit:
  assumes "sinv hs w0 qs w" and "\<forall>k. settled w0 qs w k" and "t < length qs"
    and "qs ! t = Visiting rest" and "visit rest w = (p, w')"
  shows "\<forall>k. settled w0 (qs[t := p]) w' k"
  using assms
proof (induction rest arbitrary: qs)
  case Nil
  then show ?case using settled_done [of w0 qs w _ t] by auto
next
  case (Cons i rest)
  show ?case
  proof (cases "i \<in> set (guard w) \<or> \<not> initialized (heap w i)")
    case True
    from sinv_skip [OF Cons.prems(1,3,4) True]
    have s: "sinv hs w0 (qs[t := Visiting rest]) w" .
    have s2: "\<forall>k. settled w0 (qs[t := Visiting rest]) w k"
      using settled_skip [OF _ Cons.prems(3,4)] Cons.prems(2) by blast
    from Cons.prems(5) True have v: "visit rest w = (p, w')" by simp
    from Cons.IH [OF s s2 _ _ v] Cons.prems(3) show ?thesis by simp
  next
    case False
    then obtain wr where wr: "writer (heap w i) = Some wr"
      by (auto simp: initialized_def)
    from False wr Cons.prems(5)
    have "p = Flushing i rest" "w' = put i (drain_call wr (heap w i)) (noted (Flush i) (mark i w))"
      by (simp_all add: flush_call_def)
    with settled_mark [OF Cons.prems(1) _ Cons.prems(3,4) _ wr] False Cons.prems(2)
    show ?thesis by blast
  qed
qed

lemma settled_flushing:
  assumes "sinv hs w0 qs w" and "settled w0 qs w k" and "t < length qs"
    and "qs ! t = Flushing i rest" and "drain_resume (heap w i) = (out, h1)"
  shows "case out of
      Raised e \<Rightarrow> settled w0 (qs[t := Visiting rest]) (put i h1 w) k
    | Returned \<Rightarrow>
        (if \<not> initialized h1
         then settled w0 (qs[t := Visiting rest]) (noted (Close i) (put i h1 w)) k
         else settled w0 (qs[t := Closing i rest])
                (noted (Close i) (put i (snd (flush_call h1)) w)) k)"
proof -
  have pos: "0 < flushing i qs"
    using flushing_pos [OF assms(3), of i] assms(4) by (simp add: is_flushing_def)
  have ti: "tracked hs w0 qs w i" using assms(1) by (simp add: sinv_def)
  show ?thesis
  proof (cases "k = i")
    case False
    then show ?thesis
      using assms(2) flushing_update [OF assms(3), of k "Visiting rest"]
        closing_update [OF assms(3), of k "Visiting rest"]
        flushing_update [OF assms(3), of k "Closing i rest"]
        closing_update [OF assms(3), of k "Closing i rest"] assms(4)
      by (auto simp: settled_def put_def noted_def is_flushing_def is_closing_def
          split: outcome.splits)
  next
    case True
    show ?thesis
    proof (cases "faults (heap w0 i) = [] \<and> i \<in> set (guard w)")
      case False
      then show ?thesis
        by (auto simp: settled_def True put_def noted_def split: outcome.splits)
    next
      case clean: True
      with assms(2) pos True
      have h: "heap w i = snd (flush_call (heap w0 i))" "closing i qs = 0" "flushing i qs = 1"
        by (auto simp: settled_def)
      from ti clean have "initialized (heap w0 i)"
        by (auto simp: tracked_def)
      then obtain wr where wr: "writer (heap w0 i) = Some wr"
        by (auto simp: initialized_def)
      have f: "faults (heap w i) = []"
        using h(1) clean wr by (simp add: flush_call_def drain_call_def external_def)
      from clean_resume [OF f] assms(5) have o: "out = Returned" "h1 = heap w i" by simp_all
      have fl: "snd (flush (heap w0 i)) = heap w i"
        using h(1) wr clean_resume [OF f] by (simp add: flush_def flush_call_def)
      have i1: "initialized h1"
        using o(2) h(1) wr by (simp add: initialized_def flush_call_def drain_call_def external_def)
      show ?thesis
        using o i1 True clean h fl flushing_update [OF assms(3), of i "Closing i rest"]
          closing_update [OF assms(3), of i "Closing i rest"] assms(4)
        by (simp add: settled_def put_def noted_def is_flushing_def is_closing_def)
    qed
  qed
qed

lemma settled_closing:
  assumes "sinv hs w0 qs w" and "settled w0 qs w k" and "t < length qs"
    and "qs ! t = Closing i rest" and "drain_resume (heap w i) = (out, h1)"
  shows "case out of
      Raised e \<Rightarrow> settled w0 (qs[t := Visiting rest]) (put i h1 w) k
    | Returned \<Rightarrow> settled w0 (qs[t := Visiting rest]) (put i (snd (close_finish h1)) w) k"
proof -
  have pos: "0 < closing i qs"
    using closing_pos [OF assms(3), of i] assms(4) by (simp add: is_closing_def)
  have ti: "tracked hs w0 qs w i" using assms(1) by (simp add: sinv_def)
  show ?thesis
  proof (cases "k = i")
    case False
    then show ?thesis
      using assms(2) flushing_update [OF assms(3), of k "Visiting rest"]
        closing_update [OF assms(3), of k "Visiting rest"] assms(4)
      by (auto simp: settled_def put_def is_flushing_def is_closing_def split: outcome.splits)
  next
    case True
    show ?thesis
    proof (cases "faults (heap w0 i) = [] \<and> i \<in> set (guard w)")
      case False
      then show ?thesis
        by (auto simp: settled_def True put_def split: outcome.splits)
    next
      case clean: True
      with assms(2) pos True
      have h: "heap w i = snd (flush_call (snd (flush (heap w0 i))))" "closing i qs = 1"
        "flushing i qs = 0"
        by (auto simp: settled_def)
      from ti clean have "initialized (heap w0 i)"
        by (auto simp: tracked_def)
      then obtain wr where wr: "writer (heap w0 i) = Some wr"
        by (auto simp: initialized_def)
      let ?h1 = "snd (flush (heap w0 i))"
      have f1: "faults ?h1 = []" and w1: "writer ?h1 = Some wr"
        using clean wr
        by (simp_all add: flush_def drain_call_def drain_resume_def external_def completes_def)
      have f: "faults (heap w i) = []"
        using h(1) f1 w1 by (simp add: flush_call_def drain_call_def external_def)
      from clean_resume [OF f] assms(5) have o: "out = Returned" "h1 = heap w i" by simp_all
      have "flush ?h1 = (Returned, heap w i)"
        using h(1) w1 clean_resume [OF f] by (simp add: flush_def flush_call_def)
      then have c: "close ?h1 = close_finish (heap w i)"
        using w1 by (simp add: close_def initialized_def)
      show ?thesis
        using o True clean h c flushing_update [OF assms(3), of i "Visiting rest"]
          closing_update [OF assms(3), of i "Visiting rest"] assms(4)
        by (simp add: settled_def put_def is_flushing_def is_closing_def)
    qed
  qed
qed

lemma settled_visit_after:
  assumes "sinv hs w0 (qs[t := Visiting rest]) w"
    and "\<forall>k. settled w0 (qs[t := Visiting rest]) w k"
    and "t < length qs" and "visit rest w = (p, w')"
  shows "\<forall>k. settled w0 (qs[t := p]) w' k"
  using settled_visit [OF assms(1,2) _ _ assms(4), of t] assms(3) by simp

lemma settled_step:
  assumes "sinv hs w0 qs w" and "\<forall>k. settled w0 qs w k" and "t < length qs"
    and "shutdown_step (qs ! t) w = (p, w')"
  shows "\<forall>k. settled w0 (qs[t := p]) w' k"
proof (cases "qs ! t")
  case (Visiting rest)
  with assms(4) have "visit rest w = (p, w')" by simp
  from settled_visit [OF assms(1-3) Visiting this] show ?thesis .
next
  case (Flushing i rest)
  obtain out h1 where d: "drain_resume (heap w i) = (out, h1)"
    by (cases "drain_resume (heap w i)")
  have st: "\<And>k. case out of
      Raised e \<Rightarrow> settled w0 (qs[t := Visiting rest]) (put i h1 w) k
    | Returned \<Rightarrow>
        (if \<not> initialized h1
         then settled w0 (qs[t := Visiting rest]) (noted (Close i) (put i h1 w)) k
         else settled w0 (qs[t := Closing i rest])
                (noted (Close i) (put i (snd (flush_call h1)) w)) k)"
    using settled_flushing [OF assms(1) _ assms(3) Flushing d] assms(2) by blast
  show ?thesis
  proof (cases out)
    case (Raised e)
    with d assms(4) Flushing have v: "visit rest (put i h1 w) = (p, w')" by simp
    from st Raised have s2: "\<forall>k. settled w0 (qs[t := Visiting rest]) (put i h1 w) k" by simp
    from sinv_flush_failed [OF assms(1,3) Flushing d [unfolded Raised]] s2
    show ?thesis by (rule settled_visit_after [OF _ _ assms(3) v])
  next
    case Returned
    show ?thesis
    proof (cases "initialized h1")
      case False
      with d Returned assms(4) Flushing
      have v: "visit rest (noted (Close i) (put i h1 w)) = (p, w')" by simp
      from st Returned False
      have s2: "\<forall>k. settled w0 (qs[t := Visiting rest]) (noted (Close i) (put i h1 w)) k"
        by simp
      have s1: "sinv hs w0 (qs[t := Visiting rest]) (noted (Close i) (put i h1 w))"
        by (rule sinv_close_noted [OF assms(1,3) Flushing]) simp
      from s1 s2 show ?thesis by (rule settled_visit_after [OF _ _ assms(3) v])
    next
      case True
      then obtain wr where "writer h1 = Some wr" by (auto simp: initialized_def)
      with True d Returned assms(4) Flushing
      have "p = Closing i rest" "w' = noted (Close i) (put i (snd (flush_call h1)) w)"
        by (simp_all add: flush_call_def)
      with st Returned True show ?thesis by simp
    qed
  qed
next
  case (Closing i rest)
  obtain out h1 where d: "drain_resume (heap w i) = (out, h1)"
    by (cases "drain_resume (heap w i)")
  have st: "\<And>k. case out of
      Raised e \<Rightarrow> settled w0 (qs[t := Visiting rest]) (put i h1 w) k
    | Returned \<Rightarrow> settled w0 (qs[t := Visiting rest]) (put i (snd (close_finish h1)) w) k"
    using settled_closing [OF assms(1) _ assms(3) Closing d] assms(2) by blast
  show ?thesis
  proof (cases out)
    case (Raised e)
    with d assms(4) Closing have v: "visit rest (put i h1 w) = (p, w')" by simp
    from st Raised have s2: "\<forall>k. settled w0 (qs[t := Visiting rest]) (put i h1 w) k" by simp
    from sinv_closing_done [OF assms(1,3) Closing] s2
    show ?thesis by (rule settled_visit_after [OF _ _ assms(3) v])
  next
    case Returned
    with d assms(4) Closing
    have v: "visit rest (put i (snd (close_finish h1)) w) = (p, w')" by simp
    from st Returned
    have s2: "\<forall>k. settled w0 (qs[t := Visiting rest]) (put i (snd (close_finish h1)) w) k"
      by simp
    from sinv_closing_done [OF assms(1,3) Closing] s2
    show ?thesis by (rule settled_visit_after [OF _ _ assms(3) v])
  qed
next
  case Done
  with assms(4) have "p = Done" "w' = w" by simp_all
  moreover have "qs[t := Done] = qs" using list_update_id [of qs t] Done by simp
  ultimately show ?thesis using assms(2) by simp
qed

lemma settled_run:
  "sinv hs w0 qs w \<Longrightarrow> \<forall>k. settled w0 qs w k \<Longrightarrow>
   shutdown_run sched (qs, w) = (qs', w') \<Longrightarrow>
   sinv hs w0 qs' w' \<and> (\<forall>k. settled w0 qs' w' k) \<and> length qs' = length qs"
proof (induction sched arbitrary: qs w)
  case Nil
  then show ?case by simp
next
  case (Cons t sched)
  show ?case
  proof (cases "t < length qs")
    case False
    with Cons show ?thesis by (simp add: shutdown_turn_def)
  next
    case True
    obtain p w1 where s: "shutdown_step (qs ! t) w = (p, w1)"
      by (cases "shutdown_step (qs ! t) w")
    from sinv_step [OF Cons.prems(1) True s] have a: "sinv hs w0 (qs[t := p]) w1" .
    from settled_step [OF Cons.prems(1,2) True s]
    have b: "\<forall>k. settled w0 (qs[t := p]) w1 k" .
    from Cons.prems(3) True s
    have "shutdown_run sched (qs[t := p], w1) = (qs', w')" by (simp add: shutdown_turn_def)
    from Cons.IH [OF a b this] show ?thesis by simp
  qed
qed

lemma settled_initial:
  "guard w = [] \<Longrightarrow> settled w (replicate m (Visiting hs)) w k"
  by (simp add: settled_def)

lemma all_done_counts:
  "\<forall>p \<in> set ps. p = Done \<Longrightarrow> flushing i ps = 0 \<and> closing i ps = 0"
  by (auto simp: flushing_def closing_def is_flushing_def is_closing_def filter_empty_conv)

lemma shutdown_result:
  assumes "guard w = []" and "1 \<le> m"
    and "shutdown_run sched (shutdowns m lg w) = (ps, w')"
    and "\<forall>p \<in> set ps. p = Done"
  shows "(i \<in> set (handlers lg) \<and> initialized (heap w i) \<longrightarrow>
            (about i (journal w') = about i (journal w) @ [Flush i]
             \<or> about i (journal w') = about i (journal w) @ [Flush i, Close i])
          \<and> (faults (heap w i) = [] \<longrightarrow>
                about i (journal w') = about i (journal w) @ [Flush i, Close i]
              \<and> heap w' i = snd (close (snd (flush (heap w i))))))
       \<and> (\<not> (i \<in> set (handlers lg) \<and> initialized (heap w i)) \<longrightarrow>
            about i (journal w') = about i (journal w) \<and> heap w' i = heap w i)"
proof -
  let ?hs = "handlers lg"
  from settled_run [OF sinv_initial [OF assms(1)] _ assms(3) [unfolded shutdowns_def]]
    settled_initial [OF assms(1)]
  have inv: "sinv ?hs w ps w'" and st: "settled w ps w' i" and len: "length ps = m"
    by simp_all
  from all_done_counts [OF assms(4)] have z: "flushing i ps = 0" "closing i ps = 0"
    by simp_all
  from len assms(2) have "ps \<noteq> []" by auto
  then obtain p where "p \<in> set ps" by (cases ps) auto
  with assms(4) have "Done \<in> set ps" by auto
  with inv have "covered ?hs w w' Done" by (simp add: sinv_def)
  then have cov: "i \<in> set ?hs \<Longrightarrow> initialized (heap w i) \<Longrightarrow> i \<in> set (guard w')"
    by (auto simp: covered_def)
  from inv have tr: "tracked ?hs w ps w' i" by (simp add: sinv_def)
  show ?thesis
    using tr st z cov
    by (auto simp: tracked_def settled_def split: if_splits)
qed

lemma visit_effort: "visit rest w = (p, w') \<Longrightarrow> effort p \<le> 2 * length rest"
proof (induction rest arbitrary: w)
  case Nil
  then show ?case by auto
next
  case (Cons i rest)
  then show ?case
    by (fastforce split: if_splits prod.splits outcome.splits)
qed

lemma step_effort:
  assumes "shutdown_step p w = (p', w')"
  shows "effort p' \<le> effort p - 1"
proof (cases p)
  case (Visiting rest)
  with assms visit_effort [of rest w p' w'] show ?thesis by simp
next
  case (Flushing i rest)
  with assms show ?thesis
    by (auto split: prod.splits outcome.splits if_splits dest!: visit_effort)
next
  case (Closing i rest)
  with assms show ?thesis
    by (auto split: prod.splits outcome.splits if_splits dest!: visit_effort)
next
  case Done
  with assms show ?thesis by auto
qed

lemma run_effort:
  "shutdown_run sched (qs, w) = (qs', w') \<Longrightarrow> t < length qs \<Longrightarrow>
   effort (qs' ! t) \<le> effort (qs ! t) - count_list sched t \<and> length qs' = length qs"
proof (induction sched arbitrary: qs w)
  case Nil
  then show ?case by simp
next
  case (Cons x sched)
  show ?case
  proof (cases "x < length qs")
    case False
    with Cons.prems have "shutdown_run sched (qs, w) = (qs', w')" "x \<noteq> t"
      by (auto simp: shutdown_turn_def)
    with Cons.IH [OF this(1) Cons.prems(2)] show ?thesis by simp
  next
    case True
    obtain p w1 where s: "shutdown_step (qs ! x) w = (p, w1)"
      by (cases "shutdown_step (qs ! x) w")
    with Cons.prems(1) True
    have r: "shutdown_run sched (qs[x := p], w1) = (qs', w')" by (simp add: shutdown_turn_def)
    from Cons.IH [OF r] Cons.prems(2)
    have ih: "effort (qs' ! t) \<le> effort (qs[x := p] ! t) - count_list sched t"
      "length qs' = length qs" by simp_all
    show ?thesis
    proof (cases "x = t")
      case True
      with step_effort [OF s] ih Cons.prems(2) show ?thesis by simp
    next
      case False
      with ih show ?thesis by simp
    qed
  qed
qed

lemma run_length:
  "shutdown_run sched (qs, w) = (qs', w') \<Longrightarrow> length qs' = length qs"
proof (induction sched arbitrary: qs w)
  case Nil
  then show ?case by simp
next
  case (Cons x sched)
  then show ?case
    by (cases "shutdown_step (qs ! x) w") (auto simp: shutdown_turn_def split: if_splits)
qed

lemma effort_zero: "effort p = 0 \<longleftrightarrow> p = Done"
  by (cases p) auto

lemma shutdown_finishes:
  assumes "\<forall>t < m. 2 * length (handlers lg) + 1 \<le> count_list sched t"
    and "shutdown_run sched (shutdowns m lg w) = (ps, w')"
  shows "\<forall>p \<in> set ps. p = Done"
proof
  fix p assume "p \<in> set ps"
  then obtain t where t: "t < length ps" "ps ! t = p" by (auto simp: in_set_conv_nth)
  have len: "length ps = m"
    using run_length [OF assms(2) [unfolded shutdowns_def]] by simp
  with t have tm: "t < m" by simp
  from run_effort [OF assms(2) [unfolded shutdowns_def], of t] tm
  have "effort (ps ! t) \<le> effort (Visiting (handlers lg)) - count_list sched t" by simp
  with assms(1) tm have "effort (ps ! t) = 0" by auto
  with t show "p = Done" by (simp add: effort_zero)
qed

lemma flush_close_clean:
  "faults h = [] \<Longrightarrow> writer h = Some wr \<Longrightarrow>
   snd (close (snd (flush h))) =
     h\<lparr>writer := None, stream := Shut,
       calls := calls h @ [WriterDrain wr, WriterDrain wr, WriterClose wr]\<rparr>"
  by (simp add: handler_defs)

section \<open>Shutdown: every handler once, failures contained\<close>

lemmas shutdown_defs = shutdowns_def shutdown_turn_def flush_call_def put_def noted_def mark_def
  test_logger_def fleet_def new_handler_def piped_handler_def handler_defs




text \<open>
  C7. Any number \<open>m \<ge> 1\<close> of \<open>shutdown\<close> calls on a logger that has not been shut down
  before, whatever the writers of its handlers raise: under every schedule that gives
  each call at least \<open>2 n + 1\<close> turns, \<open>n\<close> the number of registered handlers, every call
  finishes, and it can only finish normally. Every registered handler that was
  initialized has been flushed, and one whose own writer does not fail has been flushed
  and then closed and is left without writer, whether or not the other handlers failed.
\<close>

theorem shutdown_survives_failures:
  assumes "guard w = []" and "1 \<le> m"
    and "\<forall>t < m. 2 * length (handlers lg) + 1 \<le> count_list sched t"
  shows "\<exists>ps w'. shutdown_run sched (shutdowns m lg w) = (ps, w') \<and> (\<forall>p \<in> set ps. p = Done)
    \<and> (\<forall>i \<in> set (handlers lg). initialized (heap w i) \<longrightarrow>
          (about i (journal w') = about i (journal w) @ [Flush i]
           \<or> about i (journal w') = about i (journal w) @ [Flush i, Close i])
        \<and> (faults (heap w i) = [] \<longrightarrow>
              about i (journal w') = about i (journal w) @ [Flush i, Close i]
            \<and> \<not> initialized (heap w' i)))"
proof -
  obtain ps w' where r: "shutdown_run sched (shutdowns m lg w) = (ps, w')"
    by (cases "shutdown_run sched (shutdowns m lg w)")
  from shutdown_finishes [OF assms(3) r] have d: "\<forall>p \<in> set ps. p = Done" .
  have "(about i (journal w') = about i (journal w) @ [Flush i]
           \<or> about i (journal w') = about i (journal w) @ [Flush i, Close i])
        \<and> (faults (heap w i) = [] \<longrightarrow>
              about i (journal w') = about i (journal w) @ [Flush i, Close i]
            \<and> \<not> initialized (heap w' i))"
    if "i \<in> set (handlers lg)" and "initialized (heap w i)" for i
  proof -
    from that(2) obtain wr where "writer (heap w i) = Some wr" by (auto simp: initialized_def)
    with shutdown_result [OF assms(1,2) r d, of i] flush_close_clean [of "heap w i" wr] that
    show ?thesis by (auto simp: initialized_def)
  qed
  with r d show ?thesis by blast
qed

theorem shutdown_survives_failures_witness:
  "fst (shutdown_run [0, 0, 0, 0, 0, 0, 0] (shutdowns 1 (test_logger [0, 1, 2]) fleet)) = [Done]
   \<and> journal (snd (shutdown_run [0, 0, 0, 0, 0, 0, 0] (shutdowns 1 (test_logger [0, 1, 2]) fleet)))
       = [Flush 0, Flush 1, Close 1]
   \<and> (\<exists>ps w'. shutdown_run [0, 0, 0, 0, 0, 0, 0] (shutdowns 1 (test_logger [0, 1, 2]) fleet) = (ps, w')
        \<and> about 1 (journal w') = [Flush 1, Close 1] \<and> \<not> initialized (heap w' 1))"
proof -
  have a: "guard fleet = []" "(1::nat) \<le> 1"
    "\<forall>t < (1::nat). 2 * length (handlers (test_logger [0, 1, 2])) + 1 \<le> count_list [0, 0, 0, 0, 0, 0, 0] t"
    by (simp_all add: fleet_def test_logger_def)
  have b: "1 \<in> set (handlers (test_logger [0, 1, 2]))" "initialized (heap fleet 1)"
    "faults (heap fleet 1) = []" "journal fleet = []"
    by (simp_all add: test_logger_def fleet_def new_handler_def piped_handler_def
        initialized_def)
  have c: "fst (shutdown_run [0, 0, 0, 0, 0, 0, 0] (shutdowns 1 (test_logger [0, 1, 2]) fleet)) = [Done]"
    "journal (snd (shutdown_run [0, 0, 0, 0, 0, 0, 0] (shutdowns 1 (test_logger [0, 1, 2]) fleet)))
       = [Flush 0, Flush 1, Close 1]"
    by (simp_all add: shutdown_defs)
  from shutdown_survives_failures [OF a] b c
  show ?thesis by (fastforce simp del: shutdown_run.simps)
qed

end
